theory Spec2Isabelle
  imports Main "HOL-Library.Word"
begin

section \<open>Values and objects of the host language\<close>

text \<open>
  The two modules verified here are \<^verbatim>\<open>reactive.ts\<close> (the identity registry:
  \<^verbatim>\<open>reactive\<close>, \<^verbatim>\<open>readonly\<close>, \<^verbatim>\<open>shallowReadonly\<close>, \<^verbatim>\<open>createReactiveObject\<close>) and
  \<^verbatim>\<open>effect.ts\<close> (the effect runtime: \<^verbatim>\<open>run\<close>, \<^verbatim>\<open>cleanup\<close>, \<^verbatim>\<open>track\<close>, \<^verbatim>\<open>trigger\<close>).
  Both are written in TypeScript over mutable objects with identity, so objects live in
  a store and are named by their address. The production build is modelled: the
  build-time constant \<^verbatim>\<open>__DEV__\<close> is false, so the development-only warning of
  \<^verbatim>\<open>createReactiveObject\<close> and the \<^verbatim>\<open>onTrack\<close>/\<^verbatim>\<open>onTrigger\<close> hooks are dead code.
\<close>

type_synonym addr = nat

text \<open>
  The values of the host language that the two modules can tell apart. A number is
  modelled where it is an unsigned 32-bit integer (an array index or a length): these
  are distinct numbers of the language, so two numbers of the model are never one key
  of a \<^verbatim>\<open>Map\<close>. Fractions, negative numbers, \<^verbatim>\<open>NaN\<close> and numbers beyond that range are
  not modelled; no operation of the two modules computes with a number.
\<close>

datatype val =
    VUndefined
  | VNull
  | VBool bool
  | VNum "32 word"
  | VStr string
  | VSym nat
  | VRef addr

text \<open>JavaScript truthiness, as the prefix \<^verbatim>\<open>!\<close> of \<^verbatim>\<open>canObserve\<close> reads a property.\<close>

fun truthy :: "val \<Rightarrow> bool" where
  "truthy VUndefined = False"
| "truthy VNull = False"
| "truthy (VBool b) = b"
| "truthy (VNum n) = (n \<noteq> 0)"
| "truthy (VStr s) = (s \<noteq> [])"
| "truthy (VSym n) = True"
| "truthy (VRef a) = True"

text \<open>Modelled from the spec: the modules \<^verbatim>\<open>baseHandlers\<close> and \<^verbatim>\<open>collectionHandlers\<close> are
  not among the sources. The registry only passes their five handler tables on to
  \<^verbatim>\<open>new Proxy\<close>, so a table is a name.\<close>

datatype handlers =
    mutableHandlers
  | readonlyHandlers
  | shallowReadonlyHandlers
  | mutableCollectionHandlers
  | readonlyCollectionHandlers

text \<open>The value of \<^verbatim>\<open>target.constructor\<close>.\<close>

datatype ctor = CObject | CArray | CMap | CSet | CWeakMap | CWeakSet | COther

text \<open>
  A stored object is either an ordinary object, with its own properties, the class tag
  that \<^verbatim>\<open>Object.prototype.toString\<close> reports for it and its constructor, or a
  \<^verbatim>\<open>Proxy\<close> with its target and handler table.
\<close>

datatype obj =
    Plain "string \<rightharpoonup> val" string ctor
  | Proxy addr handlers

section \<open>The identity registry (reactive.ts): definitions\<close>

text \<open>The four module-level \<^verbatim>\<open>WeakMap\<close>s are passed around by reference in the source,
  so they are named.\<close>

datatype weakmap = rawToReactive | reactiveToRaw | rawToReadonly | readonlyToRaw

record registry =
  heap :: "addr \<Rightarrow> obj"
  nextAddr :: addr
  weakmaps :: "weakmap \<Rightarrow> (addr \<rightharpoonup> addr)"
  readonlyValues :: "addr set"
  nonReactiveValues :: "addr set"

text \<open>\<^verbatim>\<open>WeakMap.has\<close>, \<^verbatim>\<open>WeakMap.get\<close>, \<^verbatim>\<open>WeakMap.set\<close> and \<^verbatim>\<open>WeakSet.has\<close>. A value that is
  not an object is never a key; a missing key reads as \<^verbatim>\<open>undefined\<close>.\<close>

definition wm_has :: "registry \<Rightarrow> weakmap \<Rightarrow> val \<Rightarrow> bool" where
  "wm_has s m v = (case v of VRef a \<Rightarrow> weakmaps s m a \<noteq> None | _ \<Rightarrow> False)"

definition wm_get :: "registry \<Rightarrow> weakmap \<Rightarrow> val \<Rightarrow> val" where
  "wm_get s m v =
     (case v of
        VRef a \<Rightarrow> (case weakmaps s m a of Some p \<Rightarrow> VRef p | None \<Rightarrow> VUndefined)
      | _ \<Rightarrow> VUndefined)"

definition wm_set :: "weakmap \<Rightarrow> addr \<Rightarrow> addr \<Rightarrow> registry \<Rightarrow> registry" where
  "wm_set m k v s = s\<lparr>weakmaps := (weakmaps s)(m := (weakmaps s m)(k \<mapsto> v))\<rparr>"

definition ws_has :: "addr set \<Rightarrow> val \<Rightarrow> bool" where
  "ws_has S v = (case v of VRef a \<Rightarrow> a \<in> S | _ \<Rightarrow> False)"

text \<open>
  Modelled from the spec: what a handler table does on a read is not among the sources.
  By the specification a wrapper delegates structural reads to its raw object, so
  reading a property, the class tag or the constructor of a wrapper reads it from the
  target. \<open>deref\<close> follows the targets of a chain of wrappers down to the ordinary
  object. A proxy is always allocated after its target, which is what makes the walk
  terminate.
\<close>

function deref :: "(addr \<Rightarrow> obj) \<Rightarrow> addr \<Rightarrow> addr" where
  "deref h a =
     (case h a of
        Plain ps tag c \<Rightarrow> a
      | Proxy t hs \<Rightarrow> (if t < a then deref h t else a))"
  by pat_completeness auto
termination
  by (relation "measure snd") auto

declare deref.simps [simp del]

definition getProp :: "registry \<Rightarrow> addr \<Rightarrow> string \<Rightarrow> val" where
  "getProp s a k =
     (case heap s (deref (heap s) a) of
        Plain ps tag c \<Rightarrow> (case ps k of Some v \<Rightarrow> v | None \<Rightarrow> VUndefined)
      | Proxy t hs \<Rightarrow> VUndefined)"

text \<open>Modelled from the spec: \<^verbatim>\<open>toRawType\<close> of \<^verbatim>\<open>@vue/shared\<close> is not among the sources;
  it is the class tag of the value (\<^verbatim>\<open>Object\<close>, \<^verbatim>\<open>Array\<close>, \<^verbatim>\<open>Map\<close>, ...), on which the
  allow-list of observable types is checked.\<close>

definition toRawType :: "registry \<Rightarrow> addr \<Rightarrow> string" where
  "toRawType s a =
     (case heap s (deref (heap s) a) of
        Plain ps tag c \<Rightarrow> tag
      | Proxy t hs \<Rightarrow> ''Object'')"

definition constructorOf :: "registry \<Rightarrow> addr \<Rightarrow> ctor" where
  "constructorOf s a =
     (case heap s (deref (heap s) a) of
        Plain ps tag c \<Rightarrow> c
      | Proxy t hs \<Rightarrow> COther)"

text \<open>Modelled from the spec: \<^verbatim>\<open>isObject\<close> of \<^verbatim>\<open>@vue/shared\<close> is not among the sources;
  the generic wrap routine rejects the inputs that are not object-like.\<close>

definition isObject :: "val \<Rightarrow> bool" where
  "isObject v = (case v of VRef a \<Rightarrow> True | _ \<Rightarrow> False)"

text \<open>Modelled from the spec: \<^verbatim>\<open>makeMap\<close> of \<^verbatim>\<open>@vue/shared\<close> is not among the sources;
  applied to the comma-separated list of the source it is the membership test of the
  allow-list.\<close>

definition isObservableType :: "string \<Rightarrow> bool" where
  "isObservableType t =
     (t \<in> set [''Object'', ''Array'', ''Map'', ''Set'', ''WeakMap'', ''WeakSet''])"

definition collectionTypes :: "ctor set" where
  "collectionTypes = {CSet, CMap, CWeakMap, CWeakSet}"

definition canObserve :: "registry \<Rightarrow> addr \<Rightarrow> bool" where
  "canObserve s a =
     (\<not> truthy (getProp s a ''_isVue'') \<and>
      \<not> truthy (getProp s a ''_isVNode'') \<and>
      isObservableType (toRawType s a) \<and>
      a \<notin> nonReactiveValues s)"

text \<open>\<^verbatim>\<open>new Proxy(target, handlers)\<close>: a new object, at the next free address.\<close>

definition newProxy :: "addr \<Rightarrow> handlers \<Rightarrow> registry \<Rightarrow> addr \<times> registry" where
  "newProxy target hs s =
     (nextAddr s,
      s\<lparr>heap := (heap s)(nextAddr s := Proxy target hs), nextAddr := Suc (nextAddr s)\<rparr>)"

definition createReactiveObject ::
  "val \<Rightarrow> weakmap \<Rightarrow> weakmap \<Rightarrow> handlers \<Rightarrow> handlers \<Rightarrow> registry \<Rightarrow> val \<times> registry" where
  "createReactiveObject target toProxy toRaw baseHandlers collectionHandlers s =
     (if \<not> isObject target then (target, s)
      else
        (let observed = wm_get s toProxy target in
         if observed \<noteq> VUndefined then (observed, s)
         else if wm_has s toRaw target then (target, s)
         else
           (case target of
              VRef a \<Rightarrow>
                if \<not> canObserve s a then (target, s)
                else
                  (let hs = (if constructorOf s a \<in> collectionTypes
                             then collectionHandlers else baseHandlers);
                       (p, s1) = newProxy a hs s;
                       s2 = wm_set toProxy a p s1;
                       s3 = wm_set toRaw p a s2
                   in (VRef p, s3))
            | _ \<Rightarrow> (target, s))))"

definition readonly :: "val \<Rightarrow> registry \<Rightarrow> val \<times> registry" where
  "readonly target s =
     (let target' = (if wm_has s reactiveToRaw target
                     then wm_get s reactiveToRaw target else target)
      in createReactiveObject target' rawToReadonly readonlyToRaw
           readonlyHandlers readonlyCollectionHandlers s)"

definition reactive :: "val \<Rightarrow> registry \<Rightarrow> val \<times> registry" where
  "reactive target s =
     (if wm_has s readonlyToRaw target then (target, s)
      else if ws_has (readonlyValues s) target then readonly target s
      else createReactiveObject target rawToReactive reactiveToRaw
             mutableHandlers mutableCollectionHandlers s)"

definition shallowReadonly :: "val \<Rightarrow> registry \<Rightarrow> val \<times> registry" where
  "shallowReadonly target s =
     createReactiveObject target rawToReadonly readonlyToRaw
       shallowReadonlyHandlers readonlyCollectionHandlers s"

definition isReactive :: "registry \<Rightarrow> val \<Rightarrow> bool" where
  "isReactive s v = (wm_has s reactiveToRaw v \<or> wm_has s readonlyToRaw v)"

definition isReadonly :: "registry \<Rightarrow> val \<Rightarrow> bool" where
  "isReadonly s v = wm_has s readonlyToRaw v"

definition toRaw :: "registry \<Rightarrow> val \<Rightarrow> val" where
  "toRaw s observed =
     (if truthy (wm_get s reactiveToRaw observed) then wm_get s reactiveToRaw observed
      else if truthy (wm_get s readonlyToRaw observed) then wm_get s readonlyToRaw observed
      else observed)"

text \<open>\<^verbatim>\<open>WeakSet.add\<close> raises a \<^verbatim>\<open>TypeError\<close> on a value that is not an object, so the
  two markers fail on such a value and return their argument otherwise.\<close>

datatype error = TypeError

definition markReadonly :: "val \<Rightarrow> registry \<Rightarrow> error + val \<times> registry" where
  "markReadonly v s =
     (case v of
        VRef a \<Rightarrow> Inr (v, s\<lparr>readonlyValues := insert a (readonlyValues s)\<rparr>)
      | _ \<Rightarrow> Inl TypeError)"

definition markNonReactive :: "val \<Rightarrow> registry \<Rightarrow> error + val \<times> registry" where
  "markNonReactive v s =
     (case v of
        VRef a \<Rightarrow> Inr (v, s\<lparr>nonReactiveValues := insert a (nonReactiveValues s)\<rparr>)
      | _ \<Rightarrow> Inl TypeError)"

text \<open>The assignment \<^verbatim>\<open>o[k] = v\<close> of the host language on an ordinary object. What a
  write through a wrapper does is up to its handler table, and is not modelled.\<close>

definition setProp :: "addr \<Rightarrow> string \<Rightarrow> val \<Rightarrow> registry \<Rightarrow> registry" where
  "setProp a k v s =
     (case heap s a of
        Plain ps tag c \<Rightarrow> s\<lparr>heap := (heap s)(a := Plain (ps(k \<mapsto> v)) tag c)\<rparr>
      | Proxy t hs \<Rightarrow> s)"

subsection \<open>Predicates and states used to state the registry claims\<close>

text \<open>An eligible raw object: it exists, it passes \<open>canObserve\<close>, and it is not itself a
  wrapper of either direction.\<close>

definition eligible :: "registry \<Rightarrow> addr \<Rightarrow> bool" where
  "eligible s a =
     (a < nextAddr s \<and> canObserve s a \<and>
      weakmaps s reactiveToRaw a = None \<and> weakmaps s readonlyToRaw a = None)"

text \<open>The registry after the last branch of \<open>createReactiveObject\<close> has built a proxy
  for \<open>a\<close> and registered it in both tables.\<close>

definition install :: "weakmap \<Rightarrow> weakmap \<Rightarrow> addr \<Rightarrow> handlers \<Rightarrow> registry \<Rightarrow> registry" where
  "install tp tr a hs s =
     wm_set tr (nextAddr s) a (wm_set tp a (nextAddr s) (snd (newProxy a hs s)))"

text \<open>
  Well-formedness of the four tables: they mention existing objects only; each
  raw-to-wrapper entry has its inverse entry; the keys of the two wrapper-to-raw tables
  are proxies of the object they map to, allocated after it; no object is a wrapper of
  both directions, and no readonly wrapper has a readonly wrapper of its own.
\<close>

definition reg_inv :: "registry \<Rightarrow> bool" where
  "reg_inv s =
     ((\<forall>m p a. weakmaps s m p = Some a \<longrightarrow> p < nextAddr s \<and> a < nextAddr s) \<and>
      (\<forall>a p. weakmaps s rawToReactive a = Some p \<longrightarrow> weakmaps s reactiveToRaw p = Some a) \<and>
      (\<forall>a p. weakmaps s rawToReadonly a = Some p \<longrightarrow> weakmaps s readonlyToRaw p = Some a) \<and>
      (\<forall>p a. weakmaps s reactiveToRaw p = Some a \<longrightarrow>
         weakmaps s readonlyToRaw p = None \<and> a < p \<and> (\<exists>hs. heap s p = Proxy a hs)) \<and>
      (\<forall>p a. weakmaps s readonlyToRaw p = Some a \<longrightarrow>
         weakmaps s rawToReadonly p = None \<and> a < p \<and> (\<exists>hs. heap s p = Proxy a hs)))"

text \<open>A registry holding one plain object \<^verbatim>\<open>{}\<close> at address 0 and nothing wrapped yet.\<close>

definition registry0 :: registry where
  "registry0 =
     \<lparr>heap = (\<lambda>a. Plain Map.empty ''Object'' CObject), nextAddr = 1,
      weakmaps = (\<lambda>m. Map.empty), readonlyValues = {}, nonReactiveValues = {}\<rparr>"

text \<open>The same object after \<^verbatim>\<open>const p = reactive(o); o._isVue = true\<close>.\<close>

definition registry_marked :: registry where
  "registry_marked = setProp 0 ''_isVue'' (VBool True) (snd (reactive (VRef 0) registry0))"

text \<open>The object marked by \<^verbatim>\<open>o._isVue = true\<close> before anything wrapped it.\<close>

definition registry_vue :: registry where
  "registry_vue = setProp 0 ''_isVue'' (VBool True) registry0"

section \<open>The effect runtime (effect.ts): definitions\<close>

text \<open>
  Effects are function objects with identity and mutable fields, and a \<^verbatim>\<open>Dep\<close> is a
  \<^verbatim>\<open>Set\<close> object shared between the dependency graph and the \<^verbatim>\<open>deps\<close> array of every
  effect subscribed to it. Both therefore live in stores, named by an identifier; a
  \<^verbatim>\<open>Set\<close> and a \<^verbatim>\<open>Map\<close> iterate in insertion order, so they are lists without
  duplicates.
\<close>

type_synonym eff = nat
type_synonym dep = nat

text \<open>Modelled from the spec: the module \<^verbatim>\<open>./operations\<close> is not among the sources; the
  access kinds and the mutation kinds (set, add, delete, clear) are its two enumerations.\<close>

datatype TrackOpTypes = GET | HAS | ITERATE

datatype TriggerOpTypes = SET | ADD | DELETE | CLEAR

text \<open>
  The function wrapped by an effect, its scheduler and its \<^verbatim>\<open>onStop\<close> hook are user code.
  What user code can do to this module is call into it: read a reactive property (the
  handler calls \<^verbatim>\<open>track\<close>), write one (the handler calls \<^verbatim>\<open>trigger\<close>), call an
  effect, stop one, pause or resume tracking, or raise. A function is the sequence of
  these calls it makes, and the value it returns.
\<close>

datatype stmt =
    Track addr TrackOpTypes val
  | Trigger addr TriggerOpTypes val
  | Invoke eff
  | Stop eff
  | PauseTracking
  | ResumeTracking
  | Throw

datatype fn = Fn "stmt list" val

record ReactiveEffectOptions =
  lazy :: bool
  computed :: bool
  scheduler :: "stmt list option"
  onStop :: "stmt list option"

record ReactiveEffect =
  active :: bool
  raw :: fn
  deps :: "dep list"
  options :: ReactiveEffectOptions

text \<open>How a call ends: with a value, or with the failure raised by user code.\<close>

datatype completion = Returned val | Thrown

text \<open>
  The module state: the store of effects, the store of \<^verbatim>\<open>Dep\<close> sets, \<^verbatim>\<open>targetMap\<close>,
  \<^verbatim>\<open>effectStack\<close>, \<^verbatim>\<open>activeEffect\<close> and \<^verbatim>\<open>shouldTrack\<close>. \<open>arrayObjs\<close> is the set of
  targets that are arrays. \<open>calls\<close> is a spy: it records, in order, every invocation of
  the function wrapped by an effect, and nothing reads it.
\<close>

record runtime =
  effectObjs :: "eff \<Rightarrow> ReactiveEffect"
  nextEffect :: eff
  depSets :: "dep \<Rightarrow> eff list"
  nextDep :: dep
  targetMap :: "addr \<rightharpoonup> (val \<times> dep) list"
  effectStack :: "eff list"
  activeEffect :: "eff option"
  shouldTrack :: bool
  arrayObjs :: "addr set"
  calls :: "eff list"

definition ITERATE_KEY :: val where
  "ITERATE_KEY = VSym 0"

text \<open>Modelled from the spec: \<^verbatim>\<open>isArray\<close> of \<^verbatim>\<open>@vue/shared\<close> is not among the sources; it
  tells the sequence-like targets from the others.\<close>

definition isArray :: "runtime \<Rightarrow> addr \<Rightarrow> bool" where
  "isArray s t = (t \<in> arrayObjs s)"

text \<open>\<^verbatim>\<open>Set.add\<close> and \<^verbatim>\<open>Set.delete\<close> on an insertion-ordered set.\<close>

definition set_add :: "'a \<Rightarrow> 'a list \<Rightarrow> 'a list" where
  "set_add x xs = (if x \<in> set xs then xs else xs @ [x])"

definition set_delete :: "'a \<Rightarrow> 'a list \<Rightarrow> 'a list" where
  "set_delete x xs = removeAll x xs"

definition cleanup :: "eff \<Rightarrow> runtime \<Rightarrow> runtime" where
  "cleanup e s =
     (let ds = deps (effectObjs s e) in
      if ds \<noteq> [] then
        s\<lparr>depSets := fold (\<lambda>d sets. sets(d := set_delete e (sets d))) ds (depSets s),
          effectObjs := (effectObjs s)(e := (effectObjs s e)\<lparr>deps := []\<rparr>)\<rparr>
      else s)"

definition pauseTracking :: "runtime \<Rightarrow> runtime" where
  "pauseTracking s = s\<lparr>shouldTrack := False\<rparr>"

definition resumeTracking :: "runtime \<Rightarrow> runtime" where
  "resumeTracking s = s\<lparr>shouldTrack := True\<rparr>"

definition track :: "addr \<Rightarrow> TrackOpTypes \<Rightarrow> val \<Rightarrow> runtime \<Rightarrow> runtime" where
  "track target ty key s =
     (if \<not> shouldTrack s then s
      else case activeEffect s of
        None \<Rightarrow> s
      | Some e \<Rightarrow>
          (let depsMap = (case targetMap s target of None \<Rightarrow> [] | Some m \<Rightarrow> m);
               s1 = (case targetMap s target of
                       None \<Rightarrow> s\<lparr>targetMap := (targetMap s)(target \<mapsto> [])\<rparr>
                     | Some m \<Rightarrow> s);
               dep = (case map_of depsMap key of None \<Rightarrow> nextDep s1 | Some d \<Rightarrow> d);
               s2 = (case map_of depsMap key of
                       None \<Rightarrow>
                         s1\<lparr>targetMap := (targetMap s1)(target \<mapsto> depsMap @ [(key, nextDep s1)]),
                            depSets := (depSets s1)(nextDep s1 := []),
                            nextDep := Suc (nextDep s1)\<rparr>
                     | Some d \<Rightarrow> s1)
           in if e \<notin> set (depSets s2 dep) then
                s2\<lparr>depSets := (depSets s2)(dep := set_add e (depSets s2 dep)),
                   effectObjs := (effectObjs s2)
                     (e := (effectObjs s2 e)\<lparr>deps := deps (effectObjs s2 e) @ [dep]\<rparr>)\<rparr>
              else s2))"

text \<open>\<open>addRunners\<close> on the pair of the two local sets \<open>effects\<close> and \<open>computedRunners\<close>
  of \<open>trigger\<close>; \<^verbatim>\<open>undefined\<close> for \<open>effectsToAdd\<close> is \<open>None\<close>.\<close>

definition addRunners ::
  "runtime \<Rightarrow> eff list \<times> eff list \<Rightarrow> dep option \<Rightarrow> eff list \<times> eff list" where
  "addRunners s acc effectsToAdd =
     (case effectsToAdd of
        None \<Rightarrow> acc
      | Some d \<Rightarrow>
          fold (\<lambda>e (effects, computedRunners).
                  if computed (options (effectObjs s e))
                  then (effects, set_add e computedRunners)
                  else (set_add e effects, computedRunners))
            (depSets s d) acc)"

text \<open>The first half of \<open>trigger\<close>: the two sets it collects, as (\<open>effects\<close>,
  \<open>computedRunners\<close>).\<close>

definition collectRunners ::
  "runtime \<Rightarrow> (val \<times> dep) list \<Rightarrow> addr \<Rightarrow> TriggerOpTypes \<Rightarrow> val \<Rightarrow> eff list \<times> eff list" where
  "collectRunners s depsMap target ty key =
     (if ty = CLEAR then
        fold (\<lambda>(k, d) acc. addRunners s acc (Some d)) depsMap ([], [])
      else
        (let acc1 = (if key \<noteq> VUndefined
                     then addRunners s ([], []) (map_of depsMap key) else ([], []));
             acc2 = (if ty = ADD \<or> ty = DELETE
                     then addRunners s acc1
                            (map_of depsMap (if isArray s target then VStr ''length'' else ITERATE_KEY))
                     else acc1)
         in acc2))"

text \<open>The steps of \<open>run\<close> around the call of the wrapped function: the push with the
  assignment of \<open>activeEffect\<close>, and the \<^verbatim>\<open>finally\<close> block.\<close>

definition enter :: "eff \<Rightarrow> runtime \<Rightarrow> runtime" where
  "enter e s = s\<lparr>effectStack := effectStack s @ [e], activeEffect := Some e\<rparr>"

definition leave :: "runtime \<Rightarrow> runtime" where
  "leave s =
     s\<lparr>effectStack := butlast (effectStack s),
        activeEffect := (if butlast (effectStack s) = [] then None
                         else Some (last (butlast (effectStack s))))\<rparr>"

definition spy :: "eff \<Rightarrow> runtime \<Rightarrow> runtime" where
  "spy e s = s\<lparr>calls := calls s @ [e]\<rparr>"

definition deactivate :: "eff \<Rightarrow> runtime \<Rightarrow> runtime" where
  "deactivate e s = s\<lparr>effectObjs := (effectObjs s)(e := (effectObjs s e)\<lparr>active := False\<rparr>)\<rparr>"

text \<open>A call returns the value \<open>v\<close> of the function unless its body raised.\<close>

definition returning ::
  "val \<Rightarrow> (completion \<times> runtime) option \<Rightarrow> (completion \<times> runtime) option" where
  "returning v r =
     (case r of
        None \<Rightarrow> None
      | Some (Thrown, s) \<Rightarrow> Some (Thrown, s)
      | Some (Returned u, s) \<Rightarrow> Some (Returned v, s))"

text \<open>Sequencing: a failure of the first call ends the sequence and is passed on.\<close>

definition andThen ::
  "(completion \<times> runtime) option \<Rightarrow> (runtime \<Rightarrow> (completion \<times> runtime) option) \<Rightarrow>
     (completion \<times> runtime) option" where
  "andThen r f =
     (case r of
        None \<Rightarrow> None
      | Some (Thrown, s) \<Rightarrow> Some (Thrown, s)
      | Some (Returned u, s) \<Rightarrow> f s)"

text \<open>\<^verbatim>\<open>try { ... } finally { f }\<close>: \<open>f\<close> runs on the state however the body ended, and
  the way it ended is kept.\<close>

definition tryFinally ::
  "(runtime \<Rightarrow> runtime) \<Rightarrow> (completion \<times> runtime) option \<Rightarrow> (completion \<times> runtime) option" where
  "tryFinally f r = (case r of None \<Rightarrow> None | Some (c, s) \<Rightarrow> Some (c, f s))"

lemma andThen_cong [fundef_cong]:
  "r = r' \<Longrightarrow> (\<And>u s. r' = Some (Returned u, s) \<Longrightarrow> f s = f' s) \<Longrightarrow> andThen r f = andThen r' f'"
  by (auto simp: andThen_def split: option.splits completion.splits)

text \<open>
  \<open>run\<close>, the user functions, \<open>trigger\<close>, \<open>scheduleRun\<close> and \<open>stop\<close> call each other: an
  effect body writes, the write triggers effects, their bodies run. They are one
  recursive function \<open>interp\<close> over the kind of call:
  \<^item> \<open>FN body\<close>: a call of a user function with that body;
  \<^item> \<open>RUN e\<close>: \<open>run(e, e.raw, args)\<close>, that is the call \<open>e()\<close> of an effect;
  \<^item> \<open>EXEC cs\<close>: the rest \<open>cs\<close> of a user function body;
  \<^item> \<open>TRIGGER target ty key\<close>: \<open>trigger(target, ty, key)\<close>;
  \<^item> \<open>FOREACH es\<close>: \<open>es.forEach(run)\<close> of \<open>trigger\<close>, whose \<open>run\<close> is \<open>scheduleRun\<close>;
  \<^item> \<open>SCHEDULE e\<close>: \<open>scheduleRun(e, ...)\<close>;
  \<^item> \<open>STOP e\<close>: \<open>stop(e)\<close>.
  User code may recurse without end (a stopped effect that writes what it reads does),
  so every call of a user function takes one unit of fuel, and \<open>None\<close> is the call that
  did not return within the fuel.
\<close>

datatype call =
    FN "stmt list"
  | RUN eff
  | EXEC "stmt list"
  | TRIGGER addr TriggerOpTypes val
  | FOREACH "eff list"
  | SCHEDULE eff
  | STOP eff

fun rank :: "call \<Rightarrow> nat" where
  "rank (FN body) = 0"
| "rank (RUN e) = 1"
| "rank (SCHEDULE e) = 2"
| "rank (STOP e) = 2"
| "rank (FOREACH es) = 3"
| "rank (TRIGGER target ty key) = 4"
| "rank (EXEC cs) = 5"

fun weight :: "call \<Rightarrow> nat" where
  "weight (EXEC cs) = length cs"
| "weight (FOREACH es) = length es"
| "weight c = 0"

function (sequential) interp :: "nat \<Rightarrow> call \<Rightarrow> runtime \<Rightarrow> (completion \<times> runtime) option" where
  "interp 0 (FN body) s = None"
| "interp (Suc n) (FN body) s = interp n (EXEC body) s"
| "interp n (RUN e) s =
     (case raw (effectObjs s e) of
        Fn body v \<Rightarrow>
          if \<not> active (effectObjs s e) then returning v (interp n (FN body) (spy e s))
          else if e \<notin> set (effectStack s) then
            tryFinally leave (returning v (interp n (FN body) (spy e (enter e (cleanup e s)))))
          else Some (Returned VUndefined, s))"
| "interp n (EXEC []) s = Some (Returned VUndefined, s)"
| "interp n (EXEC (Track target ty key # cs)) s = interp n (EXEC cs) (track target ty key s)"
| "interp n (EXEC (Trigger target ty key # cs)) s =
     andThen (interp n (TRIGGER target ty key) s) (interp n (EXEC cs))"
| "interp n (EXEC (Invoke e # cs)) s = andThen (interp n (RUN e) s) (interp n (EXEC cs))"
| "interp n (EXEC (Stop e # cs)) s = andThen (interp n (STOP e) s) (interp n (EXEC cs))"
| "interp n (EXEC (PauseTracking # cs)) s = interp n (EXEC cs) (pauseTracking s)"
| "interp n (EXEC (ResumeTracking # cs)) s = interp n (EXEC cs) (resumeTracking s)"
| "interp n (EXEC (Throw # cs)) s = Some (Thrown, s)"
| "interp n (TRIGGER target ty key) s =
     (case targetMap s target of
        None \<Rightarrow> Some (Returned VUndefined, s)
      | Some depsMap \<Rightarrow>
          (case collectRunners s depsMap target ty key of
             (effects, computedRunners) \<Rightarrow>
               andThen (interp n (FOREACH computedRunners) s) (interp n (FOREACH effects))))"
| "interp n (FOREACH []) s = Some (Returned VUndefined, s)"
| "interp n (FOREACH (e # es)) s = andThen (interp n (SCHEDULE e) s) (interp n (FOREACH es))"
| "interp n (SCHEDULE e) s =
     (case scheduler (options (effectObjs s e)) of
        None \<Rightarrow> interp n (RUN e) s
      | Some body \<Rightarrow> interp n (FN body) s)"
| "interp n (STOP e) s =
     (if active (effectObjs s e) then
        (case onStop (options (effectObjs (cleanup e s) e)) of
           None \<Rightarrow> Some (Returned VUndefined, deactivate e (cleanup e s))
         | Some body \<Rightarrow>
             andThen (interp n (FN body) (cleanup e s))
               (\<lambda>s'. Some (Returned VUndefined, deactivate e s')))
      else Some (Returned VUndefined, s))"
  by pat_completeness auto
termination
  by (relation "measures [\<lambda>(n, c, s). n, \<lambda>(n, c, s). rank c, \<lambda>(n, c, s). weight c]") auto

text \<open>The functions of the source, by their names.\<close>

definition callFn :: "nat \<Rightarrow> stmt list \<Rightarrow> runtime \<Rightarrow> (completion \<times> runtime) option" where
  "callFn n body s = interp n (FN body) s"

definition run :: "nat \<Rightarrow> eff \<Rightarrow> runtime \<Rightarrow> (completion \<times> runtime) option" where
  "run n e s = interp n (RUN e) s"

definition trigger ::
  "nat \<Rightarrow> addr \<Rightarrow> TriggerOpTypes \<Rightarrow> val \<Rightarrow> runtime \<Rightarrow> (completion \<times> runtime) option" where
  "trigger n target ty key s = interp n (TRIGGER target ty key) s"

definition forEachRun :: "nat \<Rightarrow> eff list \<Rightarrow> runtime \<Rightarrow> (completion \<times> runtime) option" where
  "forEachRun n es s = interp n (FOREACH es) s"

definition scheduleRun :: "nat \<Rightarrow> eff \<Rightarrow> runtime \<Rightarrow> (completion \<times> runtime) option" where
  "scheduleRun n e s = interp n (SCHEDULE e) s"

definition stop :: "nat \<Rightarrow> eff \<Rightarrow> runtime \<Rightarrow> (completion \<times> runtime) option" where
  "stop n e s = interp n (STOP e) s"

text \<open>\<open>effect(fn, options)\<close>: the argument is a plain function or an effect, whose
  wrapped function is taken instead.\<close>

datatype callable = PlainFn fn | EffectFn eff

definition createReactiveEffect :: "fn \<Rightarrow> ReactiveEffectOptions \<Rightarrow> runtime \<Rightarrow> eff \<times> runtime" where
  "createReactiveEffect f opts s =
     (nextEffect s,
      s\<lparr>effectObjs := (effectObjs s)
           (nextEffect s := \<lparr>active = True, raw = f, deps = [], options = opts\<rparr>),
        nextEffect := Suc (nextEffect s)\<rparr>)"

definition effect ::
  "nat \<Rightarrow> callable \<Rightarrow> ReactiveEffectOptions \<Rightarrow> runtime \<Rightarrow> (eff \<times> completion \<times> runtime) option" where
  "effect n f opts s =
     (let f' = (case f of EffectFn e \<Rightarrow> raw (effectObjs s e) | PlainFn g \<Rightarrow> g);
          (e, s1) = createReactiveEffect f' opts s
      in if \<not> lazy opts
         then (case run n e s1 of None \<Rightarrow> None | Some (c, s2) \<Rightarrow> Some (e, c, s2))
         else Some (e, Returned VUndefined, s1))"

text \<open>Modelled from the spec: \<^verbatim>\<open>EMPTY_OBJ\<close> of \<^verbatim>\<open>@vue/shared\<close> is not among the sources; it
  is the options record with no option set.\<close>

definition EMPTY_OBJ :: ReactiveEffectOptions where
  "EMPTY_OBJ = \<lparr>lazy = False, computed = False, scheduler = None, onStop = None\<rparr>"

subsection \<open>Predicates and states used to state the runtime claims\<close>

text \<open>The top of the execution stack: \<^verbatim>\<open>effectStack[effectStack.length - 1]\<close>, which is
  \<^verbatim>\<open>undefined\<close> on the empty stack.\<close>

definition stackTop :: "eff list \<Rightarrow> eff option" where
  "stackTop st = (if st = [] then None else Some (last st))"

text \<open>A call is balanced when it leaves the execution stack as it found it, and the
  active effect either untouched or reset to the top of that stack.\<close>

definition balanced :: "runtime \<Rightarrow> runtime \<Rightarrow> bool" where
  "balanced s s' =
     (effectStack s' = effectStack s \<and>
      (activeEffect s' = activeEffect s \<or> activeEffect s' = stackTop (effectStack s)))"

text \<open>What a call cannot do to an effect \<open>e\<close>: it leaves the stack as it was, it does not
  reactivate \<open>e\<close>, and when \<open>e\<close> was on the stack and is still active afterwards, the
  function wrapped by \<open>e\<close> was not invoked.\<close>

definition undisturbed :: "eff \<Rightarrow> runtime \<Rightarrow> runtime \<Rightarrow> bool" where
  "undisturbed e s s' =
     (effectStack s' = effectStack s \<and>
      (active (effectObjs s' e) \<longrightarrow> active (effectObjs s e)) \<and>
      (e \<in> set (effectStack s) \<and> active (effectObjs s' e) \<longrightarrow>
         count_list (calls s') e = count_list (calls s) e))"

text \<open>The bidirectional bookkeeping: an effect is a member of a \<^verbatim>\<open>Dep\<close> exactly when the
  \<^verbatim>\<open>Dep\<close> is in its \<open>deps\<close> array.\<close>

definition bidirectional :: "runtime \<Rightarrow> bool" where
  "bidirectional s = (\<forall>e d. (e \<in> set (depSets s d)) = (d \<in> set (deps (effectObjs s e))))"

text \<open>Every \<^verbatim>\<open>Dep\<close> that an effect or the graph refers to has been allocated: \<^verbatim>\<open>new Set()\<close>
  never returns a set that is already in use.\<close>

definition depsAllocated :: "runtime \<Rightarrow> bool" where
  "depsAllocated s =
     ((\<forall>e d. d \<in> set (deps (effectObjs s e)) \<longrightarrow> d < nextDep s) \<and>
      (\<forall>t m k d. targetMap s t = Some m \<longrightarrow> (k, d) \<in> set m \<longrightarrow> d < nextDep s))"

definition graph_inv :: "runtime \<Rightarrow> bool" where
  "graph_inv s = (bidirectional s \<and> depsAllocated s)"

text \<open>The effects subscribed to one of a list of \<^verbatim>\<open>Dep\<close>s.\<close>

definition members :: "runtime \<Rightarrow> dep list \<Rightarrow> eff set" where
  "members s ds = set (concat (map (depSets s) ds))"

text \<open>The \<^verbatim>\<open>Dep\<close>s that \<open>trigger\<close> passes to \<open>addRunners\<close>: all of the target for a clear;
  otherwise the one of the key, when a key is given and has one, and for an add or a
  delete the one of the iteration key, when it has one.\<close>

definition contributing ::
  "runtime \<Rightarrow> (val \<times> dep) list \<Rightarrow> addr \<Rightarrow> TriggerOpTypes \<Rightarrow> val \<Rightarrow> dep list" where
  "contributing s depsMap target ty key =
     (if ty = CLEAR then map snd depsMap
      else
        (if key \<noteq> VUndefined
         then (case map_of depsMap key of None \<Rightarrow> [] | Some d \<Rightarrow> [d]) else []) @
        (if ty = ADD \<or> ty = DELETE
         then (case map_of depsMap (if isArray s target then VStr ''length'' else ITERATE_KEY) of
                 None \<Rightarrow> [] | Some d \<Rightarrow> [d])
         else []))"

definition isComputed :: "runtime \<Rightarrow> eff \<Rightarrow> bool" where
  "isComputed s e = computed (options (effectObjs s e))"

text \<open>The two local sets of \<open>trigger\<close> partition the effects \<open>M\<close> seen so far: no
  duplicates, the plain ones in the first, the computed ones in the second.\<close>

definition partitioned :: "runtime \<Rightarrow> eff set \<Rightarrow> eff list \<times> eff list \<Rightarrow> bool" where
  "partitioned s M acc =
     (distinct (fst acc) \<and> distinct (snd acc) \<and>
      set (fst acc) = {e \<in> M. \<not> isComputed s e} \<and>
      set (snd acc) = {e \<in> M. isComputed s e})"

text \<open>The second half of \<open>trigger\<close>, \<^verbatim>\<open>computedRunners.forEach(run); effects.forEach(run)\<close>,
  calls \<open>scheduleRun\<close> on the effects in this order.\<close>

definition dispatchOrder :: "runtime \<Rightarrow> addr \<Rightarrow> TriggerOpTypes \<Rightarrow> val \<Rightarrow> eff list" where
  "dispatchOrder s target ty key =
     (case targetMap s target of
        None \<Rightarrow> []
      | Some depsMap \<Rightarrow>
          (case collectRunners s depsMap target ty key of
             (effects, computedRunners) \<Rightarrow> computedRunners @ effects))"

text \<open>What \<^verbatim>\<open>es.forEach(run)\<close> is expected to do, written out over \<open>scheduleRun\<close>: each
  effect of the list is handed to \<open>scheduleRun\<close> once, in order, and a failure ends the
  walk.\<close>

fun scheduleAll :: "nat \<Rightarrow> eff list \<Rightarrow> runtime \<Rightarrow> (completion \<times> runtime) option" where
  "scheduleAll n [] s = Some (Returned VUndefined, s)"
| "scheduleAll n (e # es) s = andThen (scheduleRun n e s) (scheduleAll n es)"

text \<open>An effect that only reads: it is active, it is not running, it has no scheduler,
  and its function does nothing but read reactive properties.\<close>

fun isTrack :: "stmt \<Rightarrow> bool" where
  "isTrack (Track target ty key) = True"
| "isTrack c = False"

definition plainReader :: "runtime \<Rightarrow> eff \<Rightarrow> bool" where
  "plainReader s e =
     (active (effectObjs s e) \<and> e \<notin> set (effectStack s) \<and>
      scheduler (options (effectObjs s e)) = None \<and>
      (case raw (effectObjs s e) of Fn body v \<Rightarrow> list_all isTrack body))"

text \<open>A call that leaves the stack and the fixed fields of every effect as they were.\<close>

definition untouched :: "runtime \<Rightarrow> runtime \<Rightarrow> bool" where
  "untouched s s' =
     (effectStack s' = effectStack s \<and>
      (\<forall>x. active (effectObjs s' x) = active (effectObjs s x) \<and>
           raw (effectObjs s' x) = raw (effectObjs s x) \<and>
           options (effectObjs s' x) = options (effectObjs s x)))"

text \<open>The module state when it is loaded, and the state after a call of \<open>effect\<close>.\<close>

definition emptyRuntime :: runtime where
  "emptyRuntime =
     \<lparr>effectObjs = (\<lambda>e. \<lparr>active = False, raw = Fn [] VUndefined, deps = [], options = EMPTY_OBJ\<rparr>),
      nextEffect = 0, depSets = (\<lambda>d. []), nextDep = 0, targetMap = Map.empty,
      effectStack = [], activeEffect = None, shouldTrack = True, arrayObjs = {}, calls = []\<rparr>"

definition after :: "(eff \<times> completion \<times> runtime) option \<Rightarrow> runtime \<Rightarrow> runtime" where
  "after r s = (case r of Some (e, c, s') \<Rightarrow> s' | None \<Rightarrow> s)"

text \<open>Two effects that read the key \<open>k\<close> of the object 0: the plain effect 0, created
  first, and the computed effect 1.\<close>

definition reader :: fn where
  "reader = Fn [Track 0 GET (VStr ''k'')] (VNum 1)"

definition twoReaders :: runtime where
  "twoReaders =
     (let s0 = after (effect 2 (PlainFn reader) EMPTY_OBJ emptyRuntime) emptyRuntime
      in after (effect 2 (PlainFn reader) (EMPTY_OBJ\<lparr>computed := True\<rparr>) s0) s0)"

text \<open>
  The object 0 and the array 1, with three effects: effect 0 reads the key \<open>k\<close> of the
  object and iterates it, effect 1 reads the length of the array, and effect 2 only
  iterates the object.
\<close>

definition watchers :: runtime where
  "watchers =
     (let s0 = emptyRuntime\<lparr>arrayObjs := {1}\<rparr>;
          s1 = after (effect 2 (PlainFn (Fn [Track 0 GET (VStr ''k''), Track 0 ITERATE ITERATE_KEY]
                                           VUndefined)) EMPTY_OBJ s0) s0;
          s2 = after (effect 2 (PlainFn (Fn [Track 1 GET (VStr ''length'')] VUndefined))
                        EMPTY_OBJ s1) s1
      in after (effect 2 (PlainFn (Fn [Track 0 ITERATE ITERATE_KEY] VUndefined)) EMPTY_OBJ s2) s2)"

text \<open>An effect, not yet run, that reads the key \<open>k\<close> of the object 0 and then writes it.\<close>

definition selfWriter :: runtime where
  "selfWriter =
     after (effect 0 (PlainFn (Fn [Track 0 GET (VStr ''k''), Trigger 0 SET (VStr ''k'')] (VNum 1)))
              (EMPTY_OBJ\<lparr>lazy := True\<rparr>) emptyRuntime) emptyRuntime"

text \<open>An effect, not yet run, whose function stops the effect itself and returns 7; and
  the state in which its first run continues after that call of \<open>stop\<close>: the effect is
  on the execution stack and no longer active.\<close>

definition selfStopper :: runtime where
  "selfStopper =
     after (effect 0 (PlainFn (Fn [Stop 0] (VNum 7))) (EMPTY_OBJ\<lparr>lazy := True\<rparr>) emptyRuntime)
       emptyRuntime"

definition midStop :: runtime where
  "midStop = deactivate 0 (cleanup 0 (spy 0 (enter 0 (cleanup 0 selfStopper))))"

text \<open>Effect 0 reads the key \<open>k\<close> and raises; effect 1 calls effect 0. \<open>insideOuter\<close> is the
  state in which the function of effect 1 has just been entered.\<close>

definition thrower :: runtime where
  "thrower =
     (let s0 = after (effect 0 (PlainFn (Fn [Track 0 GET (VStr ''k''), Throw] VUndefined))
                        (EMPTY_OBJ\<lparr>lazy := True\<rparr>) emptyRuntime) emptyRuntime
      in after (effect 0 (PlainFn (Fn [Invoke 0] VUndefined)) (EMPTY_OBJ\<lparr>lazy := True\<rparr>) s0) s0)"

definition insideOuter :: runtime where
  "insideOuter = spy 1 (enter 1 (cleanup 1 thrower))"

section \<open>The identity registry: proofs\<close>

subsection \<open>The generic wrap routine, branch by branch\<close>

lemma cro_ref:
  "createReactiveObject (VRef a) tp tr bh ch s =
     (case weakmaps s tp a of
        Some p \<Rightarrow> (VRef p, s)
      | None \<Rightarrow>
          if weakmaps s tr a \<noteq> None \<or> \<not> canObserve s a then (VRef a, s)
          else (VRef (nextAddr s),
                install tp tr a (if constructorOf s a \<in> collectionTypes then ch else bh) s))"
  by (auto simp: createReactiveObject_def isObject_def wm_get_def wm_has_def newProxy_def install_def Let_def
           split: option.split)

lemma install_simps:
  "weakmaps (install tp tr a hs s) m =
     (if m = tr then (if tp = tr then (weakmaps s tp)(a \<mapsto> nextAddr s) else weakmaps s tr)(nextAddr s \<mapsto> a)
      else if m = tp then (weakmaps s tp)(a \<mapsto> nextAddr s)
      else weakmaps s m)"
  "readonlyValues (install tp tr a hs s) = readonlyValues s"
  "nonReactiveValues (install tp tr a hs s) = nonReactiveValues s"
  "nextAddr (install tp tr a hs s) = Suc (nextAddr s)"
  "heap (install tp tr a hs s) = (heap s)(nextAddr s := Proxy a hs)"
  by (auto simp: install_def wm_set_def newProxy_def)

lemma cro_results:
  assumes c: "createReactiveObject (VRef a) tp tr bh ch s = (w, s1)"
  obtains (cached) p where "weakmaps s tp a = Some p" "w = VRef p" "s1 = s"
  | (refused) "weakmaps s tp a = None" "weakmaps s tr a \<noteq> None \<or> \<not> canObserve s a"
      "w = VRef a" "s1 = s"
  | (created) hs where "weakmaps s tp a = None" "weakmaps s tr a = None" "canObserve s a"
      "w = VRef (nextAddr s)" "s1 = install tp tr a hs s"
proof (cases "weakmaps s tp a")
  case (Some p)
  with c have "w = VRef p" "s1 = s" by (simp_all add: cro_ref)
  with Some cached show ?thesis by blast
next
  case None
  show ?thesis
  proof (cases "weakmaps s tr a \<noteq> None \<or> \<not> canObserve s a")
    case True
    with None c have "w = VRef a" "s1 = s" by (simp_all add: cro_ref)
    with None True refused show ?thesis by blast
  next
    case False
    with None c have "w = VRef (nextAddr s)"
      "s1 = install tp tr a (if constructorOf s a \<in> collectionTypes then ch else bh) s"
      by (simp_all add: cro_ref)
    with None False created show ?thesis by blast
  qed
qed

lemma cro_twice:
  assumes "createReactiveObject (VRef a) tp tr bh ch s = (w, s1)" and "tp \<noteq> tr"
  shows "createReactiveObject (VRef a) tp tr bh' ch' s1 = (w, s1)"
proof (cases "weakmaps s tp a")
  case (Some p)
  with assms show ?thesis by (simp add: cro_ref)
next
  case None
  show ?thesis
  proof (cases "weakmaps s tr a \<noteq> None \<or> \<not> canObserve s a")
    case True
    with None assms have "w = VRef a" "s1 = s" by (simp_all add: cro_ref)
    with None True show ?thesis by (simp add: cro_ref)
  next
    case False
    with None assms have w: "w = VRef (nextAddr s)"
      and s1: "s1 = install tp tr a (if constructorOf s a \<in> collectionTypes then ch else bh) s"
      by (simp_all add: cro_ref)
    have "weakmaps s1 tp a = Some (nextAddr s)"
      using assms(2) by (simp add: s1 install_simps)
    then show ?thesis by (simp add: cro_ref w)
  qed
qed

lemma readonly_ref:
  "readonly (VRef a) s =
     createReactiveObject (VRef (case weakmaps s reactiveToRaw a of Some t \<Rightarrow> t | None \<Rightarrow> a))
       rawToReadonly readonlyToRaw readonlyHandlers readonlyCollectionHandlers s"
  by (simp add: readonly_def wm_has_def wm_get_def split: option.split)

lemma reactive_ref:
  "reactive (VRef a) s =
     (if weakmaps s readonlyToRaw a \<noteq> None then (VRef a, s)
      else if a \<in> readonlyValues s then readonly (VRef a) s
      else createReactiveObject (VRef a) rawToReactive reactiveToRaw
             mutableHandlers mutableCollectionHandlers s)"
  by (simp add: reactive_def wm_has_def ws_has_def)

lemma cro_frame:
  assumes "createReactiveObject (VRef a) tp tr bh ch s = (w, s1)"
  shows "readonlyValues s1 = readonlyValues s" "nonReactiveValues s1 = nonReactiveValues s"
    "m \<noteq> tp \<Longrightarrow> m \<noteq> tr \<Longrightarrow> weakmaps s1 m = weakmaps s m"
    "tp \<noteq> tr \<Longrightarrow> b \<noteq> nextAddr s \<Longrightarrow> weakmaps s1 tr b = weakmaps s tr b"
proof -
  consider "s1 = s"
    | "s1 = install tp tr a (if constructorOf s a \<in> collectionTypes then ch else bh) s"
    using assms by (auto simp: cro_ref split: option.splits if_splits)
  note cs = this
  show "readonlyValues s1 = readonlyValues s" using cs by cases (simp_all add: install_simps)
  show "nonReactiveValues s1 = nonReactiveValues s" using cs by cases (simp_all add: install_simps)
  show "m \<noteq> tp \<Longrightarrow> m \<noteq> tr \<Longrightarrow> weakmaps s1 m = weakmaps s m"
    using cs by cases (simp_all add: install_simps)
  show "tp \<noteq> tr \<Longrightarrow> b \<noteq> nextAddr s \<Longrightarrow> weakmaps s1 tr b = weakmaps s tr b"
    using cs by cases (simp_all add: install_simps)
qed

lemma readonly_twice:
  assumes "readonly (VRef a) s = (w, s1)"
  shows "readonly (VRef a) s1 = (w, s1)"
proof -
  let ?t = "case weakmaps s reactiveToRaw a of Some t \<Rightarrow> t | None \<Rightarrow> a"
  have c: "createReactiveObject (VRef ?t) rawToReadonly readonlyToRaw
             readonlyHandlers readonlyCollectionHandlers s = (w, s1)"
    using assms by (simp add: readonly_ref)
  have "weakmaps s1 reactiveToRaw = weakmaps s reactiveToRaw"
    using cro_frame(3) [OF c, of reactiveToRaw] by simp
  with cro_twice [OF c] show ?thesis by (simp add: readonly_ref)
qed

lemma reactive_twice:
  assumes "a < nextAddr s" and r: "reactive (VRef a) s = (w, s1)"
  shows "reactive (VRef a) s1 = (w, s1)"
proof (cases "weakmaps s readonlyToRaw a \<noteq> None")
  case True
  with r show ?thesis by (auto simp: reactive_ref)
next
  case nro: False
  show ?thesis
  proof (cases "a \<in> readonlyValues s")
    case False
    with nro r have c: "createReactiveObject (VRef a) rawToReactive reactiveToRaw
           mutableHandlers mutableCollectionHandlers s = (w, s1)"
      by (simp add: reactive_ref)
    have "weakmaps s1 readonlyToRaw = weakmaps s readonlyToRaw"
      using cro_frame(3) [OF c, of readonlyToRaw] by simp
    with nro False cro_twice [OF c] cro_frame(1) [OF c] show ?thesis
      by (simp add: reactive_ref)
  next
    case True
    with nro r have ro: "readonly (VRef a) s = (w, s1)"
      by (simp add: reactive_ref)
    let ?t = "case weakmaps s reactiveToRaw a of Some t \<Rightarrow> t | None \<Rightarrow> a"
    have c: "createReactiveObject (VRef ?t) rawToReadonly readonlyToRaw
             readonlyHandlers readonlyCollectionHandlers s = (w, s1)"
      using ro by (simp add: readonly_ref)
    have "weakmaps s1 readonlyToRaw a = weakmaps s readonlyToRaw a"
      using cro_frame(4) [OF c, of a] assms(1) by simp
    with nro True cro_frame(1) [OF c] readonly_twice [OF ro] show ?thesis
      by (simp add: reactive_ref)
  qed
qed

subsection \<open>Reading through wrappers\<close>

lemma deref_Plain: "h a = Plain ps tag c \<Longrightarrow> deref h a = a"
  by (simp add: deref.simps [of h a])

lemma deref_Proxy: "h a = Proxy t hs \<Longrightarrow> t < a \<Longrightarrow> deref h a = deref h t"
  by (simp add: deref.simps [of h a])

lemma deref_agree:
  "a < n \<Longrightarrow> (\<And>b. b < n \<Longrightarrow> h' b = h b) \<Longrightarrow> deref h' a = deref h a"
proof (induction h a rule: deref.induct)
  case (1 h a)
  have eq: "h' a = h a" using 1(2,3) by simp
  show ?case
  proof (cases "h a")
    case (Plain ps tag c)
    with eq show ?thesis by (simp add: deref.simps [of _ a])
  next
    case (Proxy t hs)
    show ?thesis
    proof (cases "t < a")
      case True
      with 1 Proxy have "deref h' t = deref h t" by simp
      with True Proxy eq show ?thesis by (simp add: deref.simps [of _ a])
    next
      case False
      with Proxy eq show ?thesis by (simp add: deref.simps [of _ a])
    qed
  qed
qed

lemma deref_upd:
  "a < n \<Longrightarrow> deref (h(n := x)) a = deref h a"
  by (rule deref_agree) auto

lemma deref_le: "deref h a \<le> a"
proof (induction h a rule: deref.induct)
  case (1 h a)
  show ?case
  proof (cases "h a")
    case (Plain ps tag c)
    then show ?thesis by (simp add: deref.simps [of _ a])
  next
    case (Proxy t hs)
    with 1 show ?thesis by (cases "t < a") (auto simp: deref.simps [of _ a])
  qed
qed

lemma canObserve_install:
  assumes "b < nextAddr s"
  shows "canObserve (install tp tr a hs s) b = canObserve s b"
proof -
  have d: "deref ((heap s)(nextAddr s := Proxy a hs)) b = deref (heap s) b"
    using assms by (rule deref_upd)
  have "deref (heap s) b \<noteq> nextAddr s"
    using deref_le [of "heap s" b] assms by simp
  with d show ?thesis
    by (simp add: canObserve_def getProp_def toRawType_def install_simps)
qed

subsection \<open>The tables stay well-formed\<close>

lemma reg_invD:
  assumes "reg_inv s"
  shows "weakmaps s m p = Some a \<Longrightarrow> p < nextAddr s \<and> a < nextAddr s"
    "weakmaps s rawToReactive a = Some p \<Longrightarrow> weakmaps s reactiveToRaw p = Some a"
    "weakmaps s rawToReadonly a = Some p \<Longrightarrow> weakmaps s readonlyToRaw p = Some a"
    "weakmaps s reactiveToRaw p = Some a \<Longrightarrow>
       weakmaps s readonlyToRaw p = None \<and> a < p \<and> (\<exists>hs. heap s p = Proxy a hs)"
    "weakmaps s readonlyToRaw p = Some a \<Longrightarrow>
       weakmaps s rawToReadonly p = None \<and> a < p \<and> (\<exists>hs. heap s p = Proxy a hs)"
  using assms unfolding reg_inv_def by blast+

lemma fresh_None:
  assumes "reg_inv s" shows "weakmaps s m (nextAddr s) = None"
proof (cases "weakmaps s m (nextAddr s)")
  case (Some a)
  from reg_invD(1) [OF assms Some] show ?thesis by simp
qed simp

lemma reg_inv_install:
  assumes inv: "reg_inv s" and a: "a < nextAddr s"
    and dir: "(tp, tr) = (rawToReactive, reactiveToRaw) \<or> (tp, tr) = (rawToReadonly, readonlyToRaw)"
    and n: "weakmaps s tp a = None" "weakmaps s tr a = None"
  shows "reg_inv (install tp tr a hs s)"
proof -
  note f = fresh_None [OF inv]
  note d = reg_invD [OF inv]
  let ?s = "install tp tr a hs s"
  have ne: "a \<noteq> nextAddr s" using a by simp
  have 1: "p < nextAddr ?s \<and> b < nextAddr ?s" if "weakmaps ?s m p = Some b" for m p b
    using that dir a d(1) [of m p b]
    by (auto simp: install_simps less_Suc_eq split: if_splits)
  have 2: "weakmaps ?s reactiveToRaw p = Some b" if "weakmaps ?s rawToReactive b = Some p" for b p
    using that dir ne d(2) [of b p] f [of reactiveToRaw] d(1) [of rawToReactive b p]
    by (auto simp: install_simps split: if_splits)
  have 3: "weakmaps ?s readonlyToRaw p = Some b" if "weakmaps ?s rawToReadonly b = Some p" for b p
    using that dir ne d(3) [of b p] f [of readonlyToRaw] d(1) [of rawToReadonly b p]
    by (auto simp: install_simps split: if_splits)
  have 4: "weakmaps ?s readonlyToRaw p = None \<and> b < p \<and> (\<exists>hs. heap ?s p = Proxy b hs)"
    if "weakmaps ?s reactiveToRaw p = Some b" for b p
    using that dir a d(4) [of p b] f [of readonlyToRaw] f [of reactiveToRaw] d(1) [of reactiveToRaw p b]
    by (auto simp: install_simps split: if_splits)
  have 5: "weakmaps ?s rawToReadonly p = None \<and> b < p \<and> (\<exists>hs. heap ?s p = Proxy b hs)"
    if "weakmaps ?s readonlyToRaw p = Some b" for b p
    using that dir a n d(5) [of p b] f [of readonlyToRaw] f [of rawToReadonly] d(1) [of readonlyToRaw p b]
    by (auto simp: install_simps split: if_splits)
  show ?thesis
    unfolding reg_inv_def using 1 2 3 4 5 by blast
qed

lemma reg_inv_cro:
  assumes inv: "reg_inv s" and a: "a < nextAddr s"
    and dir: "(tp, tr) = (rawToReactive, reactiveToRaw) \<or> (tp, tr) = (rawToReadonly, readonlyToRaw)"
    and c: "createReactiveObject (VRef a) tp tr bh ch s = (w, s1)"
  shows "reg_inv s1"
  using c
proof (cases rule: cro_results)
  case (created hs)
  with reg_inv_install [OF inv a dir] show ?thesis by simp
qed (simp_all add: inv)

lemma readonly_wrapper:
  assumes inv: "reg_inv s" and a: "canObserve s a" "weakmaps s readonlyToRaw a = None"
    and c: "createReactiveObject (VRef a) rawToReadonly readonlyToRaw bh ch s = (w, s2)"
  shows "\<exists>r hs. w = VRef r \<and> weakmaps s2 readonlyToRaw r = Some a \<and>
           weakmaps s2 rawToReadonly a = Some r \<and> heap s2 r = Proxy a hs"
  using c
proof (cases rule: cro_results)
  case (cached p)
  with reg_invD(3) [OF inv, of a p] reg_invD(5) [OF inv, of p a] show ?thesis by auto
next
  case refused
  with a show ?thesis by simp
next
  case (created hs)
  then show ?thesis by (simp add: install_simps)
qed

lemma reg_inv_preserved:
  assumes inv: "reg_inv s" and a: "a < nextAddr s"
  shows "reg_inv (snd (reactive (VRef a) s))" "reg_inv (snd (readonly (VRef a) s))"
    "reg_inv (snd (shallowReadonly (VRef a) s))"
proof -
  let ?t = "case weakmaps s reactiveToRaw a of Some t \<Rightarrow> t | None \<Rightarrow> a"
  have t: "?t < nextAddr s"
    using a reg_invD(1) [OF inv, of reactiveToRaw a] by (cases "weakmaps s reactiveToRaw a") auto
  show ro: "reg_inv (snd (readonly (VRef a) s))"
    using reg_inv_cro [OF inv t, of rawToReadonly readonlyToRaw readonlyHandlers
        readonlyCollectionHandlers "fst (readonly (VRef a) s)" "snd (readonly (VRef a) s)"]
    by (simp add: readonly_ref)
  show "reg_inv (snd (shallowReadonly (VRef a) s))"
    using reg_inv_cro [OF inv a, of rawToReadonly readonlyToRaw shallowReadonlyHandlers
        readonlyCollectionHandlers "fst (shallowReadonly (VRef a) s)"
        "snd (shallowReadonly (VRef a) s)"]
    by (simp add: shallowReadonly_def)
  have "reg_inv (snd (createReactiveObject (VRef a) rawToReactive reactiveToRaw
      mutableHandlers mutableCollectionHandlers s))"
    using reg_inv_cro [OF inv a, of rawToReactive reactiveToRaw mutableHandlers
        mutableCollectionHandlers
        "fst (createReactiveObject (VRef a) rawToReactive reactiveToRaw
           mutableHandlers mutableCollectionHandlers s)"
        "snd (createReactiveObject (VRef a) rawToReactive reactiveToRaw
           mutableHandlers mutableCollectionHandlers s)"]
    by simp
  with ro inv show "reg_inv (snd (reactive (VRef a) s))"
    by (simp add: reactive_ref)
qed

lemma reg_inv_cong:
  "weakmaps s' = weakmaps s \<Longrightarrow> heap s' = heap s \<Longrightarrow> nextAddr s' = nextAddr s \<Longrightarrow>
   reg_inv s' = reg_inv s"
  by (simp add: reg_inv_def)

lemma reg_inv_markers:
  assumes "reg_inv s"
  shows "markReadonly v s = Inr (w, s') \<Longrightarrow> reg_inv s'"
    "markNonReactive v s = Inr (w, s') \<Longrightarrow> reg_inv s'"
proof -
  assume m: "markReadonly v s = Inr (w, s')"
  from m have "weakmaps s' = weakmaps s" "heap s' = heap s" "nextAddr s' = nextAddr s"
    by (cases v; auto simp: markReadonly_def)+
  then have "reg_inv s' = reg_inv s" by (rule reg_inv_cong)
  with assms show "reg_inv s'" by simp
next
  assume m: "markNonReactive v s = Inr (w, s')"
  from m have "weakmaps s' = weakmaps s" "heap s' = heap s" "nextAddr s' = nextAddr s"
    by (cases v; auto simp: markNonReactive_def)+
  then have "reg_inv s' = reg_inv s" by (rule reg_inv_cong)
  with assms show "reg_inv s'" by simp
qed

lemma markers_reject_non_objects:
  "(\<exists>r. markReadonly v s = Inr r) = isObject v" "(\<exists>r. markNonReactive v s = Inr r) = isObject v"
  by (cases v; simp add: markReadonly_def markNonReactive_def isObject_def)+

lemma reg_inv_setProp:
  assumes inv: "reg_inv s"
  shows "reg_inv (setProp a k w s)"
proof (cases "heap s a")
  case (Plain ps tag c)
  have h: "heap (setProp a k w s) p = Proxy b hs" if "heap s p = Proxy b hs" for p b hs
    using that Plain by (auto simp: setProp_def)
  have w: "weakmaps (setProp a k w s) = weakmaps s" "nextAddr (setProp a k w s) = nextAddr s"
    using Plain by (simp_all add: setProp_def)
  note d = reg_invD [OF inv]
  have 4: "weakmaps s readonlyToRaw p = None \<and> b < p \<and> (\<exists>hs. heap (setProp a k w s) p = Proxy b hs)"
    if "weakmaps s reactiveToRaw p = Some b" for p b
    using d(4) [OF that] h by blast
  have 5: "weakmaps s rawToReadonly p = None \<and> b < p \<and> (\<exists>hs. heap (setProp a k w s) p = Proxy b hs)"
    if "weakmaps s readonlyToRaw p = Some b" for p b
    using d(5) [OF that] h by blast
  show ?thesis
    unfolding reg_inv_def w using d(1,2,3) 4 5 by blast
next
  case (Proxy t hs)
  with inv show ?thesis by (simp add: setProp_def)
qed

subsection \<open>The example registries\<close>

lemma registry0_simps:
  "heap registry0 a = Plain Map.empty ''Object'' CObject" "nextAddr registry0 = 1"
  "weakmaps registry0 m a = None" "readonlyValues registry0 = {}" "nonReactiveValues registry0 = {}"
  by (simp_all add: registry0_def)

lemma reg_inv_registry0: "reg_inv registry0"
  by (simp add: reg_inv_def registry0_simps)

lemma canObserve_registry0: "canObserve registry0 a"
  by (simp add: canObserve_def getProp_def toRawType_def isObservableType_def
        registry0_simps deref_Plain)

lemma eligible_registry0: "eligible registry0 0"
  by (simp add: eligible_def canObserve_registry0 registry0_simps)

lemma readonly_registry0:
  "readonly (VRef 0) registry0 =
     (VRef 1, install rawToReadonly readonlyToRaw 0 readonlyHandlers registry0)"
  by (simp add: readonly_ref cro_ref canObserve_registry0 registry0_simps constructorOf_def
        deref_Plain collectionTypes_def)

lemma reactive_registry0:
  "reactive (VRef 0) registry0 =
     (VRef 1, install rawToReactive reactiveToRaw 0 mutableHandlers registry0)"
  by (simp add: reactive_ref cro_ref canObserve_registry0 registry0_simps constructorOf_def
        deref_Plain collectionTypes_def)

lemma registry_marked_simps:
  "heap registry_marked = (heap registry0)(1 := Proxy 0 mutableHandlers,
      0 := Plain [''_isVue'' \<mapsto> VBool True] ''Object'' CObject)"
  "weakmaps registry_marked rawToReactive = [0 \<mapsto> 1]"
  "weakmaps registry_marked reactiveToRaw = [1 \<mapsto> 0]"
  "weakmaps registry_marked rawToReadonly = Map.empty"
  "weakmaps registry_marked readonlyToRaw = Map.empty"
  "readonlyValues registry_marked = {}"
  by (auto simp: registry_marked_def reactive_registry0 setProp_def install_simps registry0_simps
        deref_Plain)

lemma registry_vue_simps:
  "heap registry_vue = (heap registry0)(0 := Plain [''_isVue'' \<mapsto> VBool True] ''Object'' CObject)"
  "weakmaps registry_vue m = Map.empty"
  by (auto simp: registry_vue_def setProp_def registry0_simps deref_Plain registry0_def)

subsection \<open>The claims about the registry\<close>

text \<open>
  Claim C1, as the code has it. The claim says that constructing \<open>shallowReadonly(o)\<close>
  after \<open>readonly(o)\<close> overwrites the readonly-direction table entry of \<open>o\<close> (last writer
  wins). The code looks the table up first and returns the wrapper it finds: for an
  eligible raw object \<open>o\<close>, \<open>shallowReadonly(o)\<close> after \<open>readonly(o)\<close> returns the wrapper
  that \<open>readonly\<close> returned, constructs nothing and leaves the registry as it was, so the
  entry of \<open>o\<close> is still the wrapper constructed first.
\<close>

theorem shallowReadonly_after_readonly_keeps_entry:
  assumes "eligible s a" and ro: "readonly (VRef a) s = (w, s1)"
  shows "shallowReadonly (VRef a) s1 = (w, s1) \<and> wm_get s1 rawToReadonly (VRef a) = w"
proof -
  have raw: "weakmaps s reactiveToRaw a = None" "weakmaps s readonlyToRaw a = None" "canObserve s a"
    using assms(1) by (simp_all add: eligible_def)
  have c: "createReactiveObject (VRef a) rawToReadonly readonlyToRaw
             readonlyHandlers readonlyCollectionHandlers s = (w, s1)"
    using ro raw by (simp add: readonly_ref)
  have 1: "shallowReadonly (VRef a) s1 = (w, s1)"
    using cro_twice [OF c] by (simp add: shallowReadonly_def)
  have 2: "wm_get s1 rawToReadonly (VRef a) = w"
    using c raw by (auto simp: cro_ref wm_get_def install_simps split: option.splits)
  from 1 2 show ?thesis by simp
qed

theorem shallowReadonly_after_readonly_keeps_entry_witness:
  "eligible registry0 0 \<and>
   shallowReadonly (VRef 0) (snd (readonly (VRef 0) registry0)) = readonly (VRef 0) registry0 \<and>
   wm_get (snd (readonly (VRef 0) registry0)) rawToReadonly (VRef 0) =
     fst (readonly (VRef 0) registry0)"
  using shallowReadonly_after_readonly_keeps_entry [OF eligible_registry0,
      of "fst (readonly (VRef 0) registry0)" "snd (readonly (VRef 0) registry0)"]
    eligible_registry0
  by simp

text \<open>
  The claim C1 as stated fails on the plain object at address 0: \<open>readonly\<close> builds the
  proxy at address 1 with the \<open>readonlyHandlers\<close>; \<open>shallowReadonly\<close> on the same object
  then returns that proxy, and the table entry of the object is the same before and
  after the call: nothing was overwritten, and no wrapper with the
  \<open>shallowReadonlyHandlers\<close> exists.
\<close>

theorem shallowReadonly_does_not_overwrite_counterexample:
  "eligible registry0 0 \<and>
   fst (readonly (VRef 0) registry0) = VRef 1 \<and>
   heap (snd (readonly (VRef 0) registry0)) 1 = Proxy 0 readonlyHandlers \<and>
   weakmaps (snd (readonly (VRef 0) registry0)) rawToReadonly 0 = Some 1 \<and>
   shallowReadonly (VRef 0) (snd (readonly (VRef 0) registry0)) =
     (VRef 1, snd (readonly (VRef 0) registry0)) \<and>
   weakmaps (snd (shallowReadonly (VRef 0) (snd (readonly (VRef 0) registry0)))) rawToReadonly 0 =
     weakmaps (snd (readonly (VRef 0) registry0)) rawToReadonly 0 \<and>
   heap (snd (shallowReadonly (VRef 0) (snd (readonly (VRef 0) registry0)))) 1 \<noteq>
     Proxy 0 shallowReadonlyHandlers"
  by (simp add: eligible_registry0 readonly_registry0 shallowReadonly_def cro_ref install_simps
        registry0_simps)

text \<open>
  Claim C7: identity stability. For an existing object \<open>o\<close>, asking again for the same
  direction returns the identical value and changes nothing: \<open>reactive(o) === reactive(o)\<close>
  and \<open>readonly(o) === readonly(o)\<close>; the second call finds the registry exactly as the
  first call left it, so a raw object has at most one wrapper per direction.
\<close>

theorem wrapper_identity_stable:
  assumes "a < nextAddr s"
  shows "reactive (VRef a) (snd (reactive (VRef a) s)) = reactive (VRef a) s \<and>
         readonly (VRef a) (snd (readonly (VRef a) s)) = readonly (VRef a) s"
  using reactive_twice [OF assms, of "fst (reactive (VRef a) s)" "snd (reactive (VRef a) s)"]
    readonly_twice [of a s "fst (readonly (VRef a) s)" "snd (readonly (VRef a) s)"]
  by simp

theorem wrapper_identity_stable_witness:
  "0 < nextAddr registry0 \<and> fst (reactive (VRef 0) registry0) = VRef 1 \<and>
   fst (readonly (VRef 0) registry0) = VRef 1 \<and>
   reactive (VRef 0) (snd (reactive (VRef 0) registry0)) = reactive (VRef 0) registry0 \<and>
   readonly (VRef 0) (snd (readonly (VRef 0) registry0)) = readonly (VRef 0) registry0"
  using wrapper_identity_stable [of 0 registry0]
  by (simp add: registry0_simps reactive_registry0 readonly_registry0)

text \<open>
  Claim C8: unwrap before re-wrap. In a well-formed registry, for an eligible raw object
  \<open>o\<close> with \<open>m = reactive(o)\<close>, the value \<open>m\<close> is not \<open>o\<close> itself, and \<open>readonly(m)\<close> is a
  proxy \<open>r\<close> whose target is \<open>o\<close>, registered as the readonly wrapper of \<open>o\<close> in both
  readonly-direction tables: a readonly wrapper of \<open>o\<close>, not of \<open>m\<close>.
\<close>

theorem readonly_of_reactive_wraps_raw:
  assumes inv: "reg_inv s" and el: "eligible s a"
    and r: "reactive (VRef a) s = (m, s1)" and ro: "readonly m s1 = (w, s2)"
  shows "m \<noteq> VRef a \<and>
         (\<exists>r hs. w = VRef r \<and> weakmaps s2 readonlyToRaw r = Some a \<and>
            weakmaps s2 rawToReadonly a = Some r \<and> heap s2 r = Proxy a hs)"
proof -
  have a: "a < nextAddr s" "canObserve s a" "weakmaps s reactiveToRaw a = None"
    "weakmaps s readonlyToRaw a = None"
    using el by (simp_all add: eligible_def)
  show ?thesis
  proof (cases "a \<in> readonlyValues s")
    case True
    with a r have c: "createReactiveObject (VRef a) rawToReadonly readonlyToRaw
        readonlyHandlers readonlyCollectionHandlers s = (m, s1)"
      by (simp add: reactive_ref readonly_ref)
    from readonly_wrapper [OF inv a(2,4) c] obtain p hs where
      p: "m = VRef p" "weakmaps s1 readonlyToRaw p = Some a"
         "weakmaps s1 rawToReadonly a = Some p" "heap s1 p = Proxy a hs"
      by blast
    have inv1: "reg_inv s1" using reg_inv_cro [OF inv a(1) _ c] by simp
    have "weakmaps s1 reactiveToRaw p = None"
      using reg_invD(4) [OF inv1, of p] p(2) by (cases "weakmaps s1 reactiveToRaw p") auto
    moreover have "weakmaps s1 rawToReadonly p = None" "a < p"
      using reg_invD(5) [OF inv1 p(2)] by simp_all
    ultimately have "w = VRef p" "s2 = s1" "p \<noteq> a"
      using ro p(1,2) by (simp_all add: readonly_ref cro_ref)
    with p show ?thesis by auto
  next
    case False
    with a r have c: "createReactiveObject (VRef a) rawToReactive reactiveToRaw
        mutableHandlers mutableCollectionHandlers s = (m, s1)"
      by (simp add: reactive_ref)
    have inv1: "reg_inv s1" using reg_inv_cro [OF inv a(1) _ c] by simp
    from c have "\<exists>p. m = VRef p \<and> weakmaps s1 reactiveToRaw p = Some a \<and>
        a < nextAddr s1 \<and> canObserve s1 a \<and> weakmaps s1 readonlyToRaw a = None"
    proof (cases rule: cro_results)
      case (cached p)
      with a reg_invD(2) [OF inv, of a p] show ?thesis by simp
    next
      case refused
      with a show ?thesis by simp
    next
      case (created hs)
      with a show ?thesis by (simp add: install_simps canObserve_install)
    qed
    then obtain p where p: "m = VRef p" "weakmaps s1 reactiveToRaw p = Some a"
      "a < nextAddr s1" "canObserve s1 a" "weakmaps s1 readonlyToRaw a = None"
      by blast
    have "a < p" using reg_invD(4) [OF inv1 p(2)] by simp
    moreover have "createReactiveObject (VRef a) rawToReadonly readonlyToRaw
        readonlyHandlers readonlyCollectionHandlers s1 = (w, s2)"
      using ro p(1,2) by (simp add: readonly_ref)
    from readonly_wrapper [OF inv1 p(4,5) this]
    have "\<exists>r hs. w = VRef r \<and> weakmaps s2 readonlyToRaw r = Some a \<and>
            weakmaps s2 rawToReadonly a = Some r \<and> heap s2 r = Proxy a hs" .
    ultimately show ?thesis using p(1) by simp
  qed
qed

theorem readonly_of_reactive_wraps_raw_witness:
  "reg_inv registry0 \<and> eligible registry0 0 \<and>
   fst (reactive (VRef 0) registry0) \<noteq> VRef 0 \<and>
   (\<exists>r hs. fst (readonly (fst (reactive (VRef 0) registry0)) (snd (reactive (VRef 0) registry0))) = VRef r \<and>
      weakmaps (snd (readonly (fst (reactive (VRef 0) registry0)) (snd (reactive (VRef 0) registry0))))
        readonlyToRaw r = Some 0 \<and>
      weakmaps (snd (readonly (fst (reactive (VRef 0) registry0)) (snd (reactive (VRef 0) registry0))))
        rawToReadonly 0 = Some r \<and>
      heap (snd (readonly (fst (reactive (VRef 0) registry0)) (snd (reactive (VRef 0) registry0)))) r =
        Proxy 0 hs)"
  using readonly_of_reactive_wraps_raw [OF reg_inv_registry0 eligible_registry0, of "fst (reactive (VRef 0) registry0)"
      "snd (reactive (VRef 0) registry0)"
      "fst (readonly (fst (reactive (VRef 0) registry0)) (snd (reactive (VRef 0) registry0)))"
      "snd (readonly (fst (reactive (VRef 0) registry0)) (snd (reactive (VRef 0) registry0)))"]
    reg_inv_registry0 eligible_registry0
  by simp

text \<open>
  Claim C9, as the code has it. The claim says that \<open>reactive\<close>, \<open>readonly\<close> and
  \<open>shallowReadonly\<close> return every value with a truthy \<open>_isVue\<close> or \<open>_isVNode\<close> unchanged.
  The code checks \<open>canObserve\<close> after the table lookup (and \<open>readonly\<close> after unwrapping
  a mutable wrapper), so this holds for a value that has no wrapper in the tables and is
  not itself a mutable wrapper: then all three return it unchanged and leave the
  registry as it was.
\<close>

theorem marked_value_passes_through:
  assumes t: "truthy (getProp s a ''_isVue'') \<or> truthy (getProp s a ''_isVNode'')"
    and u: "weakmaps s rawToReactive a = None" "weakmaps s rawToReadonly a = None"
       "weakmaps s reactiveToRaw a = None"
  shows "reactive (VRef a) s = (VRef a, s) \<and> readonly (VRef a) s = (VRef a, s) \<and>
         shallowReadonly (VRef a) s = (VRef a, s)"
proof -
  have n: "\<not> canObserve s a" using t by (auto simp: canObserve_def)
  have c: "createReactiveObject (VRef a) tp tr bh ch s = (VRef a, s)"
    if "weakmaps s tp a = None" for tp tr bh ch
    using that n by (simp add: cro_ref)
  show ?thesis using u c by (simp add: reactive_ref readonly_ref shallowReadonly_def)
qed

theorem marked_value_passes_through_witness:
  "truthy (getProp registry_vue 0 ''_isVue'') \<and>
   weakmaps registry_vue rawToReactive 0 = None \<and> weakmaps registry_vue rawToReadonly 0 = None \<and>
   weakmaps registry_vue reactiveToRaw 0 = None \<and>
   reactive (VRef 0) registry_vue = (VRef 0, registry_vue) \<and>
   readonly (VRef 0) registry_vue = (VRef 0, registry_vue) \<and>
   shallowReadonly (VRef 0) registry_vue = (VRef 0, registry_vue)"
proof -
  have t: "truthy (getProp registry_vue 0 ''_isVue'')"
    by (simp add: getProp_def registry_vue_simps deref_Plain)
  from marked_value_passes_through [of registry_vue 0] t show ?thesis
    by (simp add: registry_vue_simps)
qed

text \<open>
  The claim C9 as stated fails after \<open>const p = reactive(o); o._isVue = true\<close>: the
  object at address 0 has a truthy \<open>_isVue\<close>, and \<open>reactive(o)\<close> returns the wrapper at
  address 1 cached before, not \<open>o\<close>. The wrapper reads the same truthy \<open>_isVue\<close> through its
  target, and \<open>readonly\<close> of the wrapper returns the raw object, not the wrapper.
\<close>

theorem marked_value_cached_wrapper_counterexample:
  "truthy (getProp registry_marked 0 ''_isVue'') \<and>
   reactive (VRef 0) registry_marked = (VRef 1, registry_marked) \<and>
   truthy (getProp registry_marked 1 ''_isVue'') \<and>
   readonly (VRef 1) registry_marked = (VRef 0, registry_marked)"
  by (simp add: getProp_def reactive_ref readonly_ref cro_ref registry_marked_simps deref_Plain
        deref_Proxy [where t = 0] canObserve_def)

section \<open>The effect runtime: proofs\<close>

subsection \<open>How a call ends\<close>

lemma andThenE:
  assumes "andThen r f = Some (c, s2)"
  obtains (threw) "r = Some (Thrown, s2)" "c = Thrown"
  | (continued) u s1 where "r = Some (Returned u, s1)" "f s1 = Some (c, s2)"
  using assms by (auto simp: andThen_def split: option.splits completion.splits)

lemma returning_Some:
  "returning v r = Some (c, s') \<longleftrightarrow>
     (\<exists>c0. r = Some (c0, s') \<and> c = (case c0 of Thrown \<Rightarrow> Thrown | Returned u \<Rightarrow> Returned v))"
  by (auto simp: returning_def split: option.splits completion.splits)

lemma tryFinally_Some:
  "tryFinally f r = Some (c, s') \<longleftrightarrow> (\<exists>s1. r = Some (c, s1) \<and> s' = f s1)"
  by (auto simp: tryFinally_def split: option.splits)

lemma andThen_assoc:
  "andThen (andThen r f) g = andThen r (\<lambda>s. andThen (f s) g)"
  by (simp add: andThen_def split: option.splits completion.splits)

lemma andThen_return [simp]:
  "andThen (Some (Returned u, s)) f = f s" "andThen (Some (Thrown, s)) f = Some (Thrown, s)"
  "andThen None f = None"
  by (simp_all add: andThen_def)

subsection \<open>What the steps change\<close>

lemma cleanup_fields [simp]:
  "effectStack (cleanup e s) = effectStack s" "activeEffect (cleanup e s) = activeEffect s"
  "calls (cleanup e s) = calls s" "shouldTrack (cleanup e s) = shouldTrack s"
  "targetMap (cleanup e s) = targetMap s" "nextDep (cleanup e s) = nextDep s"
  "arrayObjs (cleanup e s) = arrayObjs s"
  "active (effectObjs (cleanup e s) x) = active (effectObjs s x)"
  "raw (effectObjs (cleanup e s) x) = raw (effectObjs s x)"
  "options (effectObjs (cleanup e s) x) = options (effectObjs s x)"
  by (simp_all add: cleanup_def Let_def)

lemma track_fields [simp]:
  "effectStack (track t ty k s) = effectStack s" "activeEffect (track t ty k s) = activeEffect s"
  "calls (track t ty k s) = calls s" "shouldTrack (track t ty k s) = shouldTrack s"
  "arrayObjs (track t ty k s) = arrayObjs s"
  "active (effectObjs (track t ty k s) x) = active (effectObjs s x)"
  "raw (effectObjs (track t ty k s) x) = raw (effectObjs s x)"
  "options (effectObjs (track t ty k s) x) = options (effectObjs s x)"
  by (simp_all add: track_def Let_def split: option.split)

lemma misc_fields [simp]:
  "effectStack (spy e s) = effectStack s" "activeEffect (spy e s) = activeEffect s"
  "calls (spy e s) = calls s @ [e]" "effectObjs (spy e s) = effectObjs s"
  "effectStack (enter e s) = effectStack s @ [e]" "activeEffect (enter e s) = Some e"
  "calls (enter e s) = calls s" "effectObjs (enter e s) = effectObjs s"
  "effectStack (leave s) = butlast (effectStack s)"
  "activeEffect (leave s) = stackTop (butlast (effectStack s))"
  "calls (leave s) = calls s" "effectObjs (leave s) = effectObjs s"
  "effectStack (deactivate e s) = effectStack s" "activeEffect (deactivate e s) = activeEffect s"
  "calls (deactivate e s) = calls s"
  "active (effectObjs (deactivate e s) x) = (x \<noteq> e \<and> active (effectObjs s x))"
  "raw (effectObjs (deactivate e s) x) = raw (effectObjs s x)"
  "options (effectObjs (deactivate e s) x) = options (effectObjs s x)"
  "effectStack (pauseTracking s) = effectStack s" "activeEffect (pauseTracking s) = activeEffect s"
  "calls (pauseTracking s) = calls s" "effectObjs (pauseTracking s) = effectObjs s"
  "effectStack (resumeTracking s) = effectStack s" "activeEffect (resumeTracking s) = activeEffect s"
  "calls (resumeTracking s) = calls s" "effectObjs (resumeTracking s) = effectObjs s"
  by (simp_all add: spy_def enter_def leave_def deactivate_def pauseTracking_def
        resumeTracking_def stackTop_def)

subsection \<open>A relation that every step respects holds of every call\<close>

lemma interp_rel:
  assumes refl: "\<And>s. R s s"
    and trans: "\<And>s s1 s2. R s s1 \<Longrightarrow> R s1 s2 \<Longrightarrow> R s s2"
    and track: "\<And>t ty k s. R s (track t ty k s)"
    and pause: "\<And>s. R s (pauseTracking s)"
    and resume: "\<And>s. R s (resumeTracking s)"
    and cleanup: "\<And>e s. R s (cleanup e s)"
    and deact: "\<And>e s. R s (deactivate e s)"
    and run_inactive: "\<And>e s s1. \<not> active (effectObjs s e) \<Longrightarrow> R (spy e s) s1 \<Longrightarrow> R s s1"
    and run_active: "\<And>e s s1. active (effectObjs s e) \<Longrightarrow> e \<notin> set (effectStack s) \<Longrightarrow>
        R (spy e (enter e (cleanup e s))) s1 \<Longrightarrow> R s (leave s1)"
  shows "interp n c s = Some (r, s') \<Longrightarrow> R s s'"
proof (induction n c s arbitrary: r s' rule: interp.induct)
  case (1 body s)
  then show ?case by simp
next
  case (2 n body s)
  then show ?case by simp
next
  case (3 n e s)
  obtain body v where f: "raw (effectObjs s e) = Fn body v"
    by (cases "raw (effectObjs s e)")
  show ?case
  proof (cases "active (effectObjs s e)")
    case False
    with "3.prems" f obtain c0 where "interp n (FN body) (spy e s) = Some (c0, s')"
      by (auto simp: returning_Some)
    from "3.IH"(1) [OF f False this] False show ?thesis by (rule run_inactive [rotated])
  next
    case True
    show ?thesis
    proof (cases "e \<in> set (effectStack s)")
      case True
      with \<open>active (effectObjs s e)\<close> "3.prems" f show ?thesis by (simp add: refl)
    next
      case False
      with True "3.prems" f obtain c0 s1
        where b: "interp n (FN body) (spy e (enter e (cleanup e s))) = Some (c0, s1)"
          and s': "s' = leave s1"
        by (auto simp: returning_Some tryFinally_Some)
      from "3.IH"(2) [OF f _ False b] True
      have "R (spy e (enter e (cleanup e s))) s1" by simp
      with True False s' show ?thesis by (simp add: run_active)
    qed
  qed
next
  case (4 n s)
  then show ?case by (simp add: refl)
next
  case (5 n target ty key cs s)
  from "5.prems" have "interp n (EXEC cs) (track target ty key s) = Some (r, s')" by simp
  from trans [OF track "5.IH" [OF this]] show ?case .
next
  case (6 n target ty key cs s)
  from "6.prems" have "andThen (interp n (TRIGGER target ty key) s) (interp n (EXEC cs)) = Some (r, s')"
    by simp
  then show ?case
  proof (cases rule: andThenE)
    case threw
    from "6.IH"(1) [OF threw(1)] show ?thesis .
  next
    case (continued u s1)
    from trans [OF "6.IH"(1) [OF continued(1)] "6.IH"(2) [OF continued]] show ?thesis .
  qed
next
  case (7 n e cs s)
  from "7.prems" have "andThen (interp n (RUN e) s) (interp n (EXEC cs)) = Some (r, s')"
    by simp
  then show ?case
  proof (cases rule: andThenE)
    case threw
    from "7.IH"(1) [OF threw(1)] show ?thesis .
  next
    case (continued u s1)
    from trans [OF "7.IH"(1) [OF continued(1)] "7.IH"(2) [OF continued]] show ?thesis .
  qed
next
  case (8 n e cs s)
  from "8.prems" have "andThen (interp n (STOP e) s) (interp n (EXEC cs)) = Some (r, s')"
    by simp
  then show ?case
  proof (cases rule: andThenE)
    case threw
    from "8.IH"(1) [OF threw(1)] show ?thesis .
  next
    case (continued u s1)
    from trans [OF "8.IH"(1) [OF continued(1)] "8.IH"(2) [OF continued]] show ?thesis .
  qed
next
  case (9 n cs s)
  from "9.prems" have "interp n (EXEC cs) (pauseTracking s) = Some (r, s')" by simp
  from trans [OF pause "9.IH" [OF this]] show ?case .
next
  case (10 n cs s)
  from "10.prems" have "interp n (EXEC cs) (resumeTracking s) = Some (r, s')" by simp
  from trans [OF resume "10.IH" [OF this]] show ?case .
next
  case (11 n cs s)
  then show ?case by (simp add: refl)
next
  case (12 n target ty key s)
  show ?case
  proof (cases "targetMap s target")
    case None
    with "12.prems" show ?thesis by (simp add: refl)
  next
    case (Some depsMap)
    obtain effects computedRunners
      where c: "(effects, computedRunners) = collectRunners s depsMap target ty key"
      by (cases "collectRunners s depsMap target ty key") simp
    from "12.prems" Some c [symmetric]
    have "andThen (interp n (FOREACH computedRunners) s) (interp n (FOREACH effects)) = Some (r, s')"
      by simp
    then show ?thesis
    proof (cases rule: andThenE)
      case threw
      from "12.IH"(1) [OF Some c threw(1)] show ?thesis .
    next
      case (continued u s1)
      from trans [OF "12.IH"(1) [OF Some c continued(1)] "12.IH"(2) [OF Some c continued]]
      show ?thesis .
    qed
  qed
next
  case (13 n s)
  then show ?case by (simp add: refl)
next
  case (14 n e es s)
  from "14.prems" have "andThen (interp n (SCHEDULE e) s) (interp n (FOREACH es)) = Some (r, s')"
    by simp
  then show ?case
  proof (cases rule: andThenE)
    case threw
    from "14.IH"(1) [OF threw(1)] show ?thesis .
  next
    case (continued u s1)
    from trans [OF "14.IH"(1) [OF continued(1)] "14.IH"(2) [OF continued]] show ?thesis .
  qed
next
  case (15 n e s)
  show ?case
  proof (cases "scheduler (options (effectObjs s e))")
    case None
    with "15.prems" have "interp n (RUN e) s = Some (r, s')" by simp
    then show ?thesis by (rule "15.IH"(1) [OF None])
  next
    case (Some body)
    with "15.prems" have "interp n (FN body) s = Some (r, s')" by simp
    then show ?thesis by (rule "15.IH"(2) [OF Some])
  qed
next
  case (16 n e s)
  show ?case
  proof (cases "active (effectObjs s e)")
    case False
    with "16.prems" show ?thesis by (simp add: refl)
  next
    case True
    show ?thesis
    proof (cases "onStop (options (effectObjs (cleanup e s) e))")
      case None
      with True "16.prems" have "s' = deactivate e (cleanup e s)" by simp
      with trans [OF cleanup deact] show ?thesis by simp
    next
      case (Some body)
      with True "16.prems"
      have "andThen (interp n (FN body) (cleanup e s))
              (\<lambda>s'. Some (Returned VUndefined, deactivate e s')) = Some (r, s')"
        by simp
      then show ?thesis
      proof (cases rule: andThenE)
        case threw
        from trans [OF cleanup "16.IH" [OF True Some threw(1)]] show ?thesis .
      next
        case (continued u s1)
        then have "s' = deactivate e s1" by simp
        with trans [OF trans [OF cleanup "16.IH" [OF True Some continued(1)]] deact]
        show ?thesis by simp
      qed
    qed
  qed
qed

lemma interp_balanced:
  assumes "interp n c s = Some (r, s')"
  shows "balanced s s'"
  using assms
proof (rule interp_rel [where R = balanced, rotated -1])
qed (auto simp: balanced_def)

lemma interp_undisturbed:
  assumes "interp n c s = Some (r, s')"
  shows "undisturbed e s s'"
  using assms
proof (rule interp_rel [where R = "undisturbed e", rotated -1])
qed (auto simp: undisturbed_def)

subsection \<open>The dependency graph\<close>

lemma fold_delete:
  "fold (\<lambda>d sets. sets(d := set_delete e (sets d))) ds f d =
     (if d \<in> set ds then set_delete e (f d) else f d)"
  by (induction ds arbitrary: f) (auto simp: set_delete_def)

lemma cleanup_graph:
  "depSets (cleanup e s) d =
     (if d \<in> set (deps (effectObjs s e)) then set_delete e (depSets s d) else depSets s d)"
  "deps (effectObjs (cleanup e s) x) = (if x = e then [] else deps (effectObjs s x))"
  by (auto simp: cleanup_def Let_def fold_delete)

lemma graph_inv_cleanup:
  assumes "graph_inv s" shows "graph_inv (cleanup e s)"
  using assms unfolding graph_inv_def bidirectional_def depsAllocated_def
  by (auto simp: cleanup_graph set_delete_def)

lemma deactivate_graph [simp]:
  "deps (effectObjs (deactivate e s) x) = deps (effectObjs s x)"
  "depSets (deactivate e s) = depSets s" "nextDep (deactivate e s) = nextDep s"
  "targetMap (deactivate e s) = targetMap s"
  by (simp_all add: deactivate_def)

lemma graph_inv_simple [simp]:
  "graph_inv (spy e s) = graph_inv s" "graph_inv (enter e s) = graph_inv s"
  "graph_inv (leave s) = graph_inv s" "graph_inv (deactivate e s) = graph_inv s"
  "graph_inv (pauseTracking s) = graph_inv s" "graph_inv (resumeTracking s) = graph_inv s"
  by (simp_all add: graph_inv_def bidirectional_def depsAllocated_def)
     (simp_all add: spy_def enter_def leave_def pauseTracking_def resumeTracking_def)

lemma track_cases:
  obtains (idle) "\<not> shouldTrack s \<or> activeEffect s = None" "track t ty k s = s"
  | (known) e m d where "activeEffect s = Some e" "targetMap s t = Some m" "map_of m k = Some d"
      "e \<in> set (depSets s d)" "track t ty k s = s"
  | (subscribe) e m d where "activeEffect s = Some e" "targetMap s t = Some m" "map_of m k = Some d"
      "e \<notin> set (depSets s d)"
      "track t ty k s =
         s\<lparr>depSets := (depSets s)(d := depSets s d @ [e]),
            effectObjs := (effectObjs s)(e := (effectObjs s e)\<lparr>deps := deps (effectObjs s e) @ [d]\<rparr>)\<rparr>"
  | (fresh) e m where "activeEffect s = Some e"
      "targetMap s t = None \<and> m = [] \<or> targetMap s t = Some m \<and> map_of m k = None"
      "track t ty k s =
         s\<lparr>targetMap := (targetMap s)(t \<mapsto> m @ [(k, nextDep s)]),
            depSets := (depSets s)(nextDep s := [e]),
            nextDep := Suc (nextDep s),
            effectObjs := (effectObjs s)(e := (effectObjs s e)\<lparr>deps := deps (effectObjs s e) @ [nextDep s]\<rparr>)\<rparr>"
proof (cases "\<not> shouldTrack s \<or> activeEffect s = None")
  case True
  then have "track t ty k s = s" by (auto simp: track_def)
  with True idle show ?thesis by blast
next
  case False
  then obtain e where e: "shouldTrack s" "activeEffect s = Some e" by auto
  show ?thesis
  proof (cases "targetMap s t")
    case None
    with e have "track t ty k s =
         s\<lparr>targetMap := (targetMap s)(t \<mapsto> [] @ [(k, nextDep s)]),
            depSets := (depSets s)(nextDep s := [e]),
            nextDep := Suc (nextDep s),
            effectObjs := (effectObjs s)(e := (effectObjs s e)\<lparr>deps := deps (effectObjs s e) @ [nextDep s]\<rparr>)\<rparr>"
      by (simp add: track_def Let_def set_add_def)
    with e None fresh [of e "[]"] show ?thesis by blast
  next
    case (Some m)
    show ?thesis
    proof (cases "map_of m k")
      case None
      with e Some have "track t ty k s =
         s\<lparr>targetMap := (targetMap s)(t \<mapsto> m @ [(k, nextDep s)]),
            depSets := (depSets s)(nextDep s := [e]),
            nextDep := Suc (nextDep s),
            effectObjs := (effectObjs s)(e := (effectObjs s e)\<lparr>deps := deps (effectObjs s e) @ [nextDep s]\<rparr>)\<rparr>"
        by (simp add: track_def Let_def set_add_def)
      with e Some None fresh [of e m] show ?thesis by blast
    next
      case d: (Some d)
      show ?thesis
      proof (cases "e \<in> set (depSets s d)")
        case True
        with e Some d have "track t ty k s = s" by (simp add: track_def Let_def)
        with e Some d True known show ?thesis by blast
      next
        case False
        with e Some d have "track t ty k s =
         s\<lparr>depSets := (depSets s)(d := depSets s d @ [e]),
            effectObjs := (effectObjs s)(e := (effectObjs s e)\<lparr>deps := deps (effectObjs s e) @ [d]\<rparr>)\<rparr>"
          by (simp add: track_def Let_def set_add_def)
        with e Some d False subscribe show ?thesis by blast
      qed
    qed
  qed
qed

lemma graph_inv_track:
  assumes inv: "graph_inv s" shows "graph_inv (track t ty k s)"
proof (cases rule: track_cases [of s t ty k])
  case idle
  with inv show ?thesis by simp
next
  case (known e m d)
  with inv show ?thesis by simp
next
  case (subscribe e m d)
  from inv subscribe(2,3) have "d < nextDep s"
    unfolding graph_inv_def bidirectional_def depsAllocated_def by (meson map_of_SomeD)
  with inv show ?thesis
    unfolding graph_inv_def bidirectional_def depsAllocated_def subscribe(5) by auto
next
  case (fresh e m)
  have "(k', d) \<in> set m \<Longrightarrow> d < nextDep s" for k' d
    using inv fresh(2) unfolding graph_inv_def bidirectional_def depsAllocated_def by auto
  with inv show ?thesis
    unfolding graph_inv_def bidirectional_def depsAllocated_def fresh(3) by (auto simp: less_Suc_eq)
qed

lemma interp_graph_inv:
  assumes "interp n c s = Some (r, s')" and "graph_inv s"
  shows "graph_inv s'"
proof -
  have "graph_inv s \<longrightarrow> graph_inv s'"
    using assms(1)
  proof (rule interp_rel [where R = "\<lambda>s s'. graph_inv s \<longrightarrow> graph_inv s'", rotated -1])
  qed (auto simp: graph_inv_track graph_inv_cleanup)
  with assms(2) show ?thesis by simp
qed

subsection \<open>What trigger collects\<close>

lemma members_simps [simp]:
  "members s [] = {}" "members s (d # ds) = set (depSets s d) \<union> members s ds"
  "members s (xs @ ys) = members s xs \<union> members s ys"
  by (simp_all add: members_def)

lemma partitioned_step:
  assumes "partitioned s M acc"
  shows "partitioned s (M \<union> set xs)
           (fold (\<lambda>e (effects, computedRunners).
                  if computed (options (effectObjs s e))
                  then (effects, set_add e computedRunners)
                  else (set_add e effects, computedRunners)) xs acc)"
  using assms
proof (induction xs arbitrary: M acc)
  case Nil
  then show ?case by simp
next
  case (Cons x xs)
  obtain es cs where acc: "acc = (es, cs)" by (cases acc)
  let ?acc' = "if computed (options (effectObjs s x)) then (es, set_add x cs) else (set_add x es, cs)"
  have "partitioned s (insert x M) ?acc'"
    using Cons.prems acc by (auto simp: partitioned_def set_add_def isComputed_def)
  moreover have "M \<union> set (x # xs) = insert x M \<union> set xs" by auto
  ultimately show ?case using Cons.IH [of "insert x M" ?acc'] acc by simp
qed

lemma partitioned_addRunners:
  assumes "partitioned s M acc"
  shows "partitioned s (M \<union> (case dopt of None \<Rightarrow> {} | Some d \<Rightarrow> set (depSets s d)))
           (addRunners s acc dopt)"
  using partitioned_step [OF assms] assms
  by (cases dopt) (simp_all add: addRunners_def)

lemma partitioned_clear:
  assumes "partitioned s M acc"
  shows "partitioned s (M \<union> members s (map snd m))
           (fold (\<lambda>(k, d) acc. addRunners s acc (Some d)) m acc)"
  using assms
proof (induction m arbitrary: M acc)
  case Nil
  then show ?case by simp
next
  case (Cons kd m)
  obtain k d where kd: "kd = (k, d)" by (cases kd)
  from partitioned_addRunners [OF Cons.prems, of "Some d"]
  have "partitioned s (M \<union> set (depSets s d)) (addRunners s acc (Some d))" by simp
  from Cons.IH [OF this] kd show ?case by (simp add: Un_assoc)
qed

lemma partitioned_collect:
  "partitioned s (members s (contributing s depsMap target ty key))
     (collectRunners s depsMap target ty key)"
proof -
  have e: "partitioned s {} ([], [])" by (simp add: partitioned_def)
  show ?thesis
  proof (cases "ty = CLEAR")
    case True
    with partitioned_clear [OF e, of depsMap] show ?thesis
      by (simp add: collectRunners_def contributing_def)
  next
    case False
    let ?ik = "if isArray s target then VStr ''length'' else ITERATE_KEY"
    let ?a1 = "if key \<noteq> VUndefined then addRunners s ([], []) (map_of depsMap key) else ([], [])"
    let ?M1 = "if key \<noteq> VUndefined
               then (case map_of depsMap key of None \<Rightarrow> {} | Some d \<Rightarrow> set (depSets s d)) else {}"
    have 1: "partitioned s ?M1 ?a1"
      using partitioned_addRunners [OF e, of "map_of depsMap key"] e by simp
    let ?a2 = "if ty = ADD \<or> ty = DELETE then addRunners s ?a1 (map_of depsMap ?ik) else ?a1"
    let ?M2 = "?M1 \<union> (if ty = ADD \<or> ty = DELETE
               then (case map_of depsMap ?ik of None \<Rightarrow> {} | Some d \<Rightarrow> set (depSets s d)) else {})"
    have 2: "partitioned s ?M2 ?a2"
      using partitioned_addRunners [OF 1, of "map_of depsMap ?ik"] 1 by simp
    have "members s (contributing s depsMap target ty key) = ?M2"
      using False by (simp add: contributing_def split: option.split)
    moreover have "collectRunners s depsMap target ty key = ?a2"
      using False by (simp add: collectRunners_def Let_def)
    ultimately show ?thesis using 2 by simp
  qed
qed

lemma forEach_append:
  "interp n (FOREACH (xs @ ys)) s = andThen (interp n (FOREACH xs) s) (interp n (FOREACH ys))"
proof (induction xs arbitrary: s)
  case Nil
  show ?case by (simp only: append_Nil interp.simps(13) andThen_return)
next
  case (Cons a xs)
  have "interp n (FOREACH (xs @ ys)) =
          (\<lambda>s. andThen (interp n (FOREACH xs) s) (interp n (FOREACH ys)))"
    by (rule ext) (rule Cons.IH)
  then show ?case
    by (simp only: append_Cons interp.simps(14) andThen_assoc)
qed

lemma count_list_distinct:
  "distinct xs \<Longrightarrow> count_list xs x = (if x \<in> set xs then 1 else 0)"
  by (induction xs) auto

lemma trigger_dispatch:
  "trigger n target ty key s = forEachRun n (dispatchOrder s target ty key) s"
  by (simp add: trigger_def forEachRun_def dispatchOrder_def forEach_append
        split: option.split prod.split)

lemma dispatch_partitioned:
  assumes "targetMap s target = Some depsMap"
    and "collectRunners s depsMap target ty key = (effects, computedRunners)"
  shows "dispatchOrder s target ty key = computedRunners @ effects"
    "distinct effects" "distinct computedRunners"
    "set effects = {e \<in> members s (contributing s depsMap target ty key). \<not> isComputed s e}"
    "set computedRunners = {e \<in> members s (contributing s depsMap target ty key). isComputed s e}"
  using assms partitioned_collect [of s depsMap target ty key]
  by (simp_all add: dispatchOrder_def partitioned_def)

subsection \<open>What trigger dispatches\<close>

lemma forEach_scheduleAll: "forEachRun n es s = scheduleAll n es s"
proof (induction es arbitrary: s)
  case Nil
  show ?case by (simp only: forEachRun_def interp.simps(13) scheduleAll.simps)
next
  case (Cons e es)
  have "interp n (FOREACH es) = scheduleAll n es"
    by (rule ext) (rule Cons.IH [unfolded forEachRun_def])
  then show ?case
    by (simp only: forEachRun_def scheduleRun_def interp.simps(14) scheduleAll.simps)
qed

lemma plainReader_untouched:
  "untouched s s' \<Longrightarrow> plainReader s' e = plainReader s e"
  by (simp add: untouched_def plainReader_def)

lemma untouched_trans:
  "untouched s s1 \<Longrightarrow> untouched s1 s2 \<Longrightarrow> untouched s s2"
  by (simp add: untouched_def)

lemma exec_tracks:
  "list_all isTrack cs \<Longrightarrow>
     \<exists>s'. interp n (EXEC cs) s = Some (Returned VUndefined, s') \<and>
          untouched s s' \<and> calls s' = calls s"
proof (induction cs arbitrary: s)
  case Nil
  show ?case by (simp add: untouched_def)
next
  case (Cons c cs)
  then obtain target ty key where c: "c = Track target ty key"
    by (cases c) simp_all
  from Cons obtain s' where
    s': "interp n (EXEC cs) (track target ty key s) = Some (Returned VUndefined, s')"
      "untouched (track target ty key s) s'" "calls s' = calls s"
    by fastforce
  have "untouched s (track target ty key s)" by (simp add: untouched_def)
  from untouched_trans [OF this s'(2)] s'(1,3) c show ?case
    by (simp only: interp.simps(5)) blast
qed

lemma run_reader:
  assumes "plainReader s e"
  shows "\<exists>v s'. interp (Suc n) (RUN e) s = Some (Returned v, s') \<and>
           untouched s s' \<and> calls s' = calls s @ [e]"
proof -
  obtain body v where f: "raw (effectObjs s e) = Fn body v"
    by (cases "raw (effectObjs s e)")
  with assms have a: "active (effectObjs s e)" "e \<notin> set (effectStack s)"
    "list_all isTrack body"
    by (simp_all add: plainReader_def)
  let ?s2 = "spy e (enter e (cleanup e s))"
  from exec_tracks [OF a(3), of n ?s2] obtain s3 where
    s3: "interp n (EXEC body) ?s2 = Some (Returned VUndefined, s3)"
      "untouched ?s2 s3" "calls s3 = calls ?s2"
    by blast
  have "interp (Suc n) (RUN e) s = Some (Returned v, leave s3)"
    using f a s3(1) by (simp add: returning_def tryFinally_def)
  moreover have "untouched s (leave s3)" "calls (leave s3) = calls s @ [e]"
    using s3(2,3) by (simp_all add: untouched_def)
  ultimately show ?thesis by blast
qed

lemma forEach_readers:
  "\<forall>e\<in>set es. plainReader s e \<Longrightarrow>
     \<exists>s'. interp (Suc n) (FOREACH es) s = Some (Returned VUndefined, s') \<and>
          untouched s s' \<and> calls s' = calls s @ es"
proof (induction es arbitrary: s)
  case Nil
  show ?case by (simp add: untouched_def)
next
  case (Cons e es)
  then have e: "plainReader s e" by simp
  from run_reader [OF e, of n] obtain u s1 where
    s1: "interp (Suc n) (RUN e) s = Some (Returned u, s1)" "untouched s s1"
      "calls s1 = calls s @ [e]"
    by blast
  from e have n: "scheduler (options (effectObjs s e)) = None"
    by (simp add: plainReader_def)
  from Cons.prems s1(2) have "\<forall>x\<in>set es. plainReader s1 x"
    by (simp add: plainReader_untouched)
  from Cons.IH [OF this] obtain s' where
    s': "interp (Suc n) (FOREACH es) s1 = Some (Returned VUndefined, s')"
      "untouched s1 s'" "calls s' = calls s1 @ es"
    by blast
  have "interp (Suc n) (FOREACH (e # es)) s = Some (Returned VUndefined, s')"
    using n s1(1) s'(1) by (simp only: interp.simps(14,15) option.case andThen_return)
  with untouched_trans [OF s1(2) s'(2)] s'(3) s1(3) show ?case by simp
qed

subsection \<open>The example runtimes\<close>

lemma midStop_reached:
  "stop 0 0 (spy 0 (enter 0 (cleanup 0 selfStopper))) = Some (Returned VUndefined, midStop)"
proof -
  have "active (effectObjs (spy 0 (enter 0 (cleanup 0 selfStopper))) 0) \<and>
        onStop (options (effectObjs (cleanup 0 (spy 0 (enter 0 (cleanup 0 selfStopper)))) 0)) = None"
    by code_simp
  then show ?thesis by (simp add: stop_def midStop_def)
qed

lemma graph_inv_emptyRuntime: "graph_inv emptyRuntime"
  by (simp add: graph_inv_def bidirectional_def depsAllocated_def emptyRuntime_def)

lemma graph_inv_createReactiveEffect:
  assumes "graph_inv s" and "\<forall>d. nextEffect s \<notin> set (depSets s d)"
  shows "graph_inv (snd (createReactiveEffect f opts s))"
  using assms
  by (auto simp: graph_inv_def bidirectional_def depsAllocated_def createReactiveEffect_def)

lemma graph_inv_selfWriter: "graph_inv selfWriter"
proof -
  have "selfWriter =
      snd (createReactiveEffect (Fn [Track 0 GET (VStr ''k''), Trigger 0 SET (VStr ''k'')] (VNum 1))
             (EMPTY_OBJ\<lparr>lazy := True\<rparr>) emptyRuntime)"
    by (simp add: selfWriter_def effect_def after_def EMPTY_OBJ_def split: prod.split)
  moreover have "\<forall>d. nextEffect emptyRuntime \<notin> set (depSets emptyRuntime d)"
    by (simp add: emptyRuntime_def)
  from graph_inv_createReactiveEffect [OF graph_inv_emptyRuntime this]
  have "graph_inv (snd (createReactiveEffect
      (Fn [Track 0 GET (VStr ''k''), Trigger 0 SET (VStr ''k'')] (VNum 1))
      (EMPTY_OBJ\<lparr>lazy := True\<rparr>) emptyRuntime))" .
  ultimately show ?thesis by simp
qed

subsection \<open>The claims about the runtime\<close>

text \<open>
  Claim C2, as the code has it. The claim says that every effect already present on the
  execution stack is skipped when invoked again. \<open>run\<close> tests \<open>effect.active\<close> first, and a
  stopped effect runs its function whether or not it is on the stack; so the guard
  holds for the effects that are still active: invoking an active effect that is on the
  stack returns \<^verbatim>\<open>undefined\<close> and changes nothing, whatever the fuel; and a run of an
  active effect that is not on the stack, and that is still active when the run ends,
  invokes the function of that effect exactly once, whatever its body writes or calls.
\<close>

theorem run_skips_active_effect_on_stack:
  "(active (effectObjs s e) \<and> e \<in> set (effectStack s) \<longrightarrow>
      run n e s = Some (Returned VUndefined, s)) \<and>
   (active (effectObjs s e) \<and> e \<notin> set (effectStack s) \<and> run n e s = Some (c, s') \<and>
      active (effectObjs s' e) \<longrightarrow>
      count_list (calls s') e = Suc (count_list (calls s) e))"
proof (intro conjI impI)
  assume "active (effectObjs s e) \<and> e \<in> set (effectStack s)"
  then show "run n e s = Some (Returned VUndefined, s)"
    by (simp add: run_def split: fn.split)
next
  assume a: "active (effectObjs s e) \<and> e \<notin> set (effectStack s) \<and> run n e s = Some (c, s') \<and>
      active (effectObjs s' e)"
  obtain body v where f: "raw (effectObjs s e) = Fn body v"
    by (cases "raw (effectObjs s e)")
  with a obtain c0 s1
    where b: "interp n (FN body) (spy e (enter e (cleanup e s))) = Some (c0, s1)"
      and s': "s' = leave s1"
    by (auto simp: run_def returning_Some tryFinally_Some)
  from interp_undisturbed [OF b, of e] a s'
  show "count_list (calls s') e = Suc (count_list (calls s) e)"
    by (simp add: undisturbed_def)
qed

theorem run_skips_active_effect_on_stack_witness:
  "(active (effectObjs (enter 0 selfWriter) 0) \<and> 0 \<in> set (effectStack (enter 0 selfWriter)) \<and>
    active (effectObjs selfWriter 0) \<and> 0 \<notin> set (effectStack selfWriter) \<and>
    run 1 0 selfWriter \<noteq> None \<and> fst (the (run 1 0 selfWriter)) = Returned (VNum 1) \<and>
    active (effectObjs (snd (the (run 1 0 selfWriter))) 0) \<and>
    calls selfWriter = []) \<and>
   run 1 0 (enter 0 selfWriter) = Some (Returned VUndefined, enter 0 selfWriter) \<and>
   count_list (calls (snd (the (run 1 0 selfWriter)))) 0 = 1"
proof -
  have e: "active (effectObjs (enter 0 selfWriter) 0) \<and> 0 \<in> set (effectStack (enter 0 selfWriter)) \<and>
    active (effectObjs selfWriter 0) \<and> 0 \<notin> set (effectStack selfWriter) \<and>
    run 1 0 selfWriter \<noteq> None \<and> fst (the (run 1 0 selfWriter)) = Returned (VNum 1) \<and>
    active (effectObjs (snd (the (run 1 0 selfWriter))) 0) \<and>
    calls selfWriter = []"
    by code_simp
  then have r: "run 1 0 selfWriter =
      Some (fst (the (run 1 0 selfWriter)), snd (the (run 1 0 selfWriter)))"
    by auto
  from run_skips_active_effect_on_stack [of "enter 0 selfWriter" 0 1] e
  have 1: "run 1 0 (enter 0 selfWriter) = Some (Returned VUndefined, enter 0 selfWriter)"
    by blast
  from run_skips_active_effect_on_stack [of selfWriter 0 1 "fst (the (run 1 0 selfWriter))"
      "snd (the (run 1 0 selfWriter))"] e r
  have "count_list (calls (snd (the (run 1 0 selfWriter)))) 0 = Suc (count_list (calls selfWriter) 0)"
    by blast
  with e have 2: "count_list (calls (snd (the (run 1 0 selfWriter)))) 0 = 1" by simp
  from e 1 2 show ?thesis by blast
qed

text \<open>
  The claim C2 as stated fails for an effect whose function calls \<open>stop\<close> on the effect
  itself: \<open>midStop\<close> is the state in which the first run of such an effect continues
  after that call. The effect is on the execution stack; invoking it again runs its
  function a second time and returns the value 7 of the function, not \<^verbatim>\<open>undefined\<close>.
\<close>

theorem stopped_effect_on_stack_runs_counterexample:
  "active (effectObjs selfStopper 0) \<and>
   stop 0 0 (spy 0 (enter 0 (cleanup 0 selfStopper))) = Some (Returned VUndefined, midStop) \<and>
   0 \<in> set (effectStack midStop) \<and>
   run 1 0 midStop \<noteq> None \<and>
   run 1 0 midStop \<noteq> Some (Returned VUndefined, midStop) \<and>
   fst (the (run 1 0 midStop)) = Returned (VNum 7) \<and>
   calls midStop = [0] \<and>
   calls (snd (the (run 1 0 midStop))) = [0, 0]"
proof -
  have e: "active (effectObjs selfStopper 0) \<and> 0 \<in> set (effectStack midStop) \<and>
    run 1 0 midStop \<noteq> None \<and>
    fst (the (run 1 0 midStop)) = Returned (VNum 7) \<and> calls midStop = [0] \<and>
    calls (snd (the (run 1 0 midStop))) = [0, 0]"
    by code_simp
  then have "run 1 0 midStop \<noteq> Some (Returned VUndefined, midStop)"
    by auto
  with e midStop_reached show ?thesis by blast
qed

text \<open>
  Claim C3: computed effects first. \<open>trigger\<close> calls \<open>scheduleRun\<close> on the effects of
  \<open>dispatchOrder\<close>, one after the other; that list is the computed runners followed by
  the plain effects, every effect of the first part is computed and none of the second
  is, whatever the order in which the \<^verbatim>\<open>Dep\<close>s were walked; and the second part is
  started only in the state in which the whole first part has returned. An effect run
  by a write inside a computed effect is dispatched by that nested call of \<open>trigger\<close>,
  of which the same holds.
\<close>

theorem trigger_computed_before_plain:
  "trigger n target ty key s = forEachRun n (dispatchOrder s target ty key) s \<and>
   (\<exists>computedRunners effects.
      dispatchOrder s target ty key = computedRunners @ effects \<and>
      (\<forall>e\<in>set computedRunners. isComputed s e) \<and>
      (\<forall>e\<in>set effects. \<not> isComputed s e) \<and>
      forEachRun n (computedRunners @ effects) s =
        andThen (forEachRun n computedRunners s) (forEachRun n effects))"
proof (cases "targetMap s target")
  case None
  then have "dispatchOrder s target ty key = [] @ []" by (simp add: dispatchOrder_def)
  then show ?thesis
    unfolding trigger_dispatch forEachRun_def forEach_append by fastforce
next
  case (Some depsMap)
  obtain effects computedRunners
    where c: "collectRunners s depsMap target ty key = (effects, computedRunners)"
    by (cases "collectRunners s depsMap target ty key")
  from dispatch_partitioned [OF Some c] show ?thesis
    unfolding trigger_dispatch forEachRun_def forEach_append by fastforce
qed

theorem trigger_computed_before_plain_witness:
  "trigger 2 0 SET (VStr ''k'') twoReaders =
     forEachRun 2 (dispatchOrder twoReaders 0 SET (VStr ''k'')) twoReaders \<and>
   depSets twoReaders 0 = [0, 1] \<and>
   dispatchOrder twoReaders 0 SET (VStr ''k'') = [1, 0] \<and>
   isComputed twoReaders 1 \<and> \<not> isComputed twoReaders 0 \<and>
   map_option (\<lambda>(c, s). (c, calls s)) (trigger 2 0 SET (VStr ''k'') twoReaders) =
     Some (Returned VUndefined, [0, 1, 1, 0])"
proof -
  have e: "depSets twoReaders 0 = [0, 1] \<and>
    dispatchOrder twoReaders 0 SET (VStr ''k'') = [1, 0] \<and>
    isComputed twoReaders 1 \<and> \<not> isComputed twoReaders 0 \<and>
    map_option (\<lambda>(c, s). (c, calls s)) (trigger 2 0 SET (VStr ''k'') twoReaders) =
      Some (Returned VUndefined, [0, 1, 1, 0])"
    by code_simp
  from trigger_computed_before_plain [of 2 0 SET "VStr ''k''" twoReaders]
  have "trigger 2 0 SET (VStr ''k'') twoReaders =
     forEachRun 2 (dispatchOrder twoReaders 0 SET (VStr ''k'')) twoReaders"
    by (rule conjunct1)
  with e show ?thesis by blast
qed

text \<open>
  Claim C4: one dispatch per effect. For a target that has been tracked, \<open>trigger\<close>
  hands the effects of \<open>dispatchOrder\<close> to \<open>scheduleRun\<close>, each element once and in
  order; that list has no duplicates, and an effect occurs in it once when it is a
  member of at least one contributing \<^verbatim>\<open>Dep\<close>, however many of them it is a member of,
  and not at all otherwise. So when the dispatched effects only read, the call of
  \<open>trigger\<close> returns and has invoked the function of each of them exactly once: the
  spy \<open>calls\<close> has grown by the dispatched list.
\<close>

theorem trigger_schedules_each_effect_once:
  assumes "targetMap s target = Some depsMap"
  shows "trigger n target ty key s = scheduleAll n (dispatchOrder s target ty key) s \<and>
         distinct (dispatchOrder s target ty key) \<and>
         (\<forall>e. count_list (dispatchOrder s target ty key) e =
            (if e \<in> members s (contributing s depsMap target ty key) then 1 else 0)) \<and>
         ((\<forall>e\<in>set (dispatchOrder s target ty key). plainReader s e) \<longrightarrow>
            (\<exists>c s'. trigger (Suc n) target ty key s = Some (c, s') \<and>
               calls s' = calls s @ dispatchOrder s target ty key \<and>
               (\<forall>e. count_list (calls s') e = count_list (calls s) e +
                  (if e \<in> members s (contributing s depsMap target ty key) then 1 else 0))))"
proof -
  obtain effects computedRunners
    where c: "collectRunners s depsMap target ty key = (effects, computedRunners)"
    by (cases "collectRunners s depsMap target ty key")
  note p = dispatch_partitioned [OF assms c]
  have d: "distinct (dispatchOrder s target ty key)"
    using p by auto
  have "set (dispatchOrder s target ty key) = members s (contributing s depsMap target ty key)"
    using p by auto
  with d have k: "count_list (dispatchOrder s target ty key) e =
      (if e \<in> members s (contributing s depsMap target ty key) then 1 else 0)" for e
    by (simp add: count_list_distinct)
  have 1: "trigger n target ty key s = scheduleAll n (dispatchOrder s target ty key) s"
    by (simp only: trigger_dispatch forEach_scheduleAll)
  have 4: "\<exists>c s'. trigger (Suc n) target ty key s = Some (c, s') \<and>
      calls s' = calls s @ dispatchOrder s target ty key \<and>
      (\<forall>e. count_list (calls s') e = count_list (calls s) e +
         (if e \<in> members s (contributing s depsMap target ty key) then 1 else 0))"
    if r: "\<forall>e\<in>set (dispatchOrder s target ty key). plainReader s e"
  proof -
    from forEach_readers [OF r, of n] obtain s' where
      s': "interp (Suc n) (FOREACH (dispatchOrder s target ty key)) s = Some (Returned VUndefined, s')"
        "calls s' = calls s @ dispatchOrder s target ty key"
      by blast
    from s'(1) have "trigger (Suc n) target ty key s = Some (Returned VUndefined, s')"
      by (simp only: trigger_dispatch forEachRun_def)
    moreover from s'(2) k
    have "count_list (calls s') e = count_list (calls s) e +
        (if e \<in> members s (contributing s depsMap target ty key) then 1 else 0)" for e
      by simp
    ultimately show ?thesis using s'(2) by blast
  qed
  from 1 d k 4 show ?thesis by blast
qed

theorem trigger_schedules_each_effect_once_witness:
  "(targetMap watchers 0 = Some [(VStr ''k'', 0), (ITERATE_KEY, 1)] \<and>
    contributing watchers [(VStr ''k'', 0), (ITERATE_KEY, 1)] 0 ADD (VStr ''k'') = [0, 1] \<and>
    0 \<in> set (depSets watchers 0) \<and> 0 \<in> set (depSets watchers 1) \<and>
    dispatchOrder watchers 0 ADD (VStr ''k'') = [0, 2] \<and>
    plainReader watchers 0 \<and> plainReader watchers 2 \<and>
    calls watchers = [0, 1, 2] \<and>
    trigger (Suc 0) 0 ADD (VStr ''k'') watchers \<noteq> None \<and>
    calls (snd (the (trigger (Suc 0) 0 ADD (VStr ''k'') watchers))) = [0, 1, 2, 0, 2]) \<and>
   trigger (Suc 0) 0 ADD (VStr ''k'') watchers =
     scheduleAll (Suc 0) (dispatchOrder watchers 0 ADD (VStr ''k'')) watchers \<and>
   distinct (dispatchOrder watchers 0 ADD (VStr ''k'')) \<and>
   count_list (dispatchOrder watchers 0 ADD (VStr ''k'')) 0 =
     (if 0 \<in> members watchers (contributing watchers [(VStr ''k'', 0), (ITERATE_KEY, 1)] 0 ADD (VStr ''k''))
      then 1 else 0) \<and>
   calls (snd (the (trigger (Suc 0) 0 ADD (VStr ''k'') watchers))) =
     calls watchers @ dispatchOrder watchers 0 ADD (VStr ''k'') \<and>
   count_list (calls (snd (the (trigger (Suc 0) 0 ADD (VStr ''k'') watchers)))) 0 =
     count_list (calls watchers) 0 + 1"
proof -
  have e: "targetMap watchers 0 = Some [(VStr ''k'', 0), (ITERATE_KEY, 1)] \<and>
    contributing watchers [(VStr ''k'', 0), (ITERATE_KEY, 1)] 0 ADD (VStr ''k'') = [0, 1] \<and>
    0 \<in> set (depSets watchers 0) \<and> 0 \<in> set (depSets watchers 1) \<and>
    dispatchOrder watchers 0 ADD (VStr ''k'') = [0, 2] \<and>
    plainReader watchers 0 \<and> plainReader watchers 2 \<and>
    calls watchers = [0, 1, 2] \<and>
    trigger (Suc 0) 0 ADD (VStr ''k'') watchers \<noteq> None \<and>
    calls (snd (the (trigger (Suc 0) 0 ADD (VStr ''k'') watchers))) = [0, 1, 2, 0, 2]"
    by code_simp
  then have t: "targetMap watchers 0 = Some [(VStr ''k'', 0), (ITERATE_KEY, 1)]" by blast
  from e have r: "\<forall>x\<in>set (dispatchOrder watchers 0 ADD (VStr ''k'')). plainReader watchers x"
    by simp
  from e have m: "0 \<in> members watchers
      (contributing watchers [(VStr ''k'', 0), (ITERATE_KEY, 1)] 0 ADD (VStr ''k''))"
    by simp
  note th = trigger_schedules_each_effect_once [OF t, of 0 ADD "VStr ''k''"]
  from th have 2: "distinct (dispatchOrder watchers 0 ADD (VStr ''k''))"
    and 3: "count_list (dispatchOrder watchers 0 ADD (VStr ''k'')) 0 =
     (if 0 \<in> members watchers (contributing watchers [(VStr ''k'', 0), (ITERATE_KEY, 1)] 0 ADD (VStr ''k''))
      then 1 else 0)"
    by blast+
  from th r obtain c s' where
    s': "trigger (Suc 0) 0 ADD (VStr ''k'') watchers = Some (c, s')"
      "calls s' = calls watchers @ dispatchOrder watchers 0 ADD (VStr ''k'')"
      "\<forall>x. count_list (calls s') x = count_list (calls watchers) x +
         (if x \<in> members watchers
                 (contributing watchers [(VStr ''k'', 0), (ITERATE_KEY, 1)] 0 ADD (VStr ''k''))
          then 1 else 0)"
    by blast
  from s'(3) m have "count_list (calls s') 0 = count_list (calls watchers) 0 + 1"
    by simp
  with s'(1,2)
  have 4: "calls (snd (the (trigger (Suc 0) 0 ADD (VStr ''k'') watchers))) =
      calls watchers @ dispatchOrder watchers 0 ADD (VStr ''k'')"
    and 5: "count_list (calls (snd (the (trigger (Suc 0) 0 ADD (VStr ''k'') watchers)))) 0 =
      count_list (calls watchers) 0 + 1"
    by simp_all
  from trigger_schedules_each_effect_once [OF t, of "Suc 0" ADD "VStr ''k''"]
  have 6: "trigger (Suc 0) 0 ADD (VStr ''k'') watchers =
     scheduleAll (Suc 0) (dispatchOrder watchers 0 ADD (VStr ''k'')) watchers"
    by blast
  from e 6 2 3 4 5 show ?thesis by blast
qed



text \<open>
  Claim C6: unwinding on every exit path. Whenever a run of an effect returns, with a
  value or with the failure raised by the user function, the execution stack is what
  it was before the run. For an active effect that was not on the stack (the run that
  pushes it), the active effect afterwards is the previous top of the stack, and the
  run ends with a failure exactly when the user function did: the failure is passed on.
  And a run that starts with the active effect at the top of the stack ends with the
  same active effect.
\<close>

theorem run_unwinds_on_every_exit:
  assumes r: "run n e s = Some (c, s')"
  shows "effectStack s' = effectStack s \<and>
         (active (effectObjs s e) \<and> e \<notin> set (effectStack s) \<longrightarrow>
            activeEffect s' = stackTop (effectStack s)) \<and>
         (activeEffect s = stackTop (effectStack s) \<longrightarrow> activeEffect s' = activeEffect s) \<and>
         (active (effectObjs s e) \<and> e \<notin> set (effectStack s) \<longrightarrow>
            (c = Thrown) =
            (case raw (effectObjs s e) of Fn body v \<Rightarrow>
               \<exists>s1. callFn n body (spy e (enter e (cleanup e s))) = Some (Thrown, s1)))"
proof -
  from interp_balanced [OF r [unfolded run_def]]
  have 1: "effectStack s' = effectStack s"
    and 3: "activeEffect s = stackTop (effectStack s) \<longrightarrow> activeEffect s' = activeEffect s"
    by (auto simp: balanced_def)
  obtain body v where f: "raw (effectObjs s e) = Fn body v"
    by (cases "raw (effectObjs s e)")
  have 24: "activeEffect s' = stackTop (effectStack s) \<and>
      (c = Thrown) = (\<exists>s1. interp n (FN body) (spy e (enter e (cleanup e s))) = Some (Thrown, s1))"
    if a: "active (effectObjs s e)" "e \<notin> set (effectStack s)"
  proof -
    from r f a obtain c0 s1
      where b: "interp n (FN body) (spy e (enter e (cleanup e s))) = Some (c0, s1)"
        and c: "c = (case c0 of Thrown \<Rightarrow> Thrown | Returned u \<Rightarrow> Returned v)"
        and s': "s' = leave s1"
      by (auto simp: run_def returning_Some tryFinally_Some)
    from interp_balanced [OF b] have "effectStack s1 = effectStack s @ [e]"
      by (simp add: balanced_def)
    with s' b c show ?thesis by (auto split: completion.splits)
  qed
  from 1 3 24 f show ?thesis by (simp add: callFn_def)
qed

theorem run_unwinds_on_every_exit_witness:
  "(run 1 0 insideOuter \<noteq> None \<and> fst (the (run 1 0 insideOuter)) = Thrown \<and>
    active (effectObjs insideOuter 0) \<and> 0 \<notin> set (effectStack insideOuter) \<and>
    effectStack insideOuter = [1] \<and> activeEffect insideOuter = Some 1 \<and>
    stackTop (effectStack insideOuter) = Some 1) \<and>
   effectStack (snd (the (run 1 0 insideOuter))) = effectStack insideOuter \<and>
   activeEffect (snd (the (run 1 0 insideOuter))) = stackTop (effectStack insideOuter) \<and>
   activeEffect (snd (the (run 1 0 insideOuter))) = activeEffect insideOuter"
proof -
  have e: "run 1 0 insideOuter \<noteq> None \<and> fst (the (run 1 0 insideOuter)) = Thrown \<and>
    active (effectObjs insideOuter 0) \<and> 0 \<notin> set (effectStack insideOuter) \<and>
    effectStack insideOuter = [1] \<and> activeEffect insideOuter = Some 1 \<and>
    stackTop (effectStack insideOuter) = Some 1"
    by code_simp
  then have r: "run 1 0 insideOuter =
      Some (fst (the (run 1 0 insideOuter)), snd (the (run 1 0 insideOuter)))"
    by auto
  from run_unwinds_on_every_exit [OF r] e show ?thesis by (simp add: stackTop_def)
qed

text \<open>
  Claim C10: the bidirectional bookkeeping is an invariant. In a state where every
  \<^verbatim>\<open>Dep\<close> in use has been allocated, if each effect is a member of exactly the \<^verbatim>\<open>Dep\<close>s of
  its \<open>deps\<close> array, then the same holds after \<open>track\<close>, after \<open>cleanup\<close>, and after every
  \<open>run\<close>, \<open>stop\<close> and \<open>trigger\<close> that returns, whatever the user functions do in between.
\<close>

theorem dependency_bookkeeping_preserved:
  assumes "bidirectional s" and "depsAllocated s"
  shows "bidirectional (track target ty key s) \<and> depsAllocated (track target ty key s) \<and>
         bidirectional (cleanup e s) \<and> depsAllocated (cleanup e s) \<and>
         (\<forall>n c s'. run n e s = Some (c, s') \<longrightarrow> bidirectional s' \<and> depsAllocated s') \<and>
         (\<forall>n c s'. stop n e s = Some (c, s') \<longrightarrow> bidirectional s' \<and> depsAllocated s') \<and>
         (\<forall>n c s'. trigger n target ty' key s = Some (c, s') \<longrightarrow>
            bidirectional s' \<and> depsAllocated s')"
proof -
  have g: "graph_inv s" using assms by (simp add: graph_inv_def)
  have i: "bidirectional s' \<and> depsAllocated s'" if "interp n k s = Some (c, s')" for n k c s'
    using interp_graph_inv [OF that g] by (simp add: graph_inv_def)
  from graph_inv_track [OF g, of target ty key] graph_inv_cleanup [OF g, of e] i
  show ?thesis
    unfolding run_def stop_def trigger_def graph_inv_def by blast
qed

theorem dependency_bookkeeping_preserved_witness:
  "(run 1 0 selfWriter \<noteq> None \<and> stop 0 0 selfWriter \<noteq> None \<and>
    trigger 1 0 SET (VStr ''k'') (snd (the (run 1 0 selfWriter))) \<noteq> None \<and>
    depSets (snd (the (run 1 0 selfWriter))) 0 = [0] \<and>
    deps (effectObjs (snd (the (run 1 0 selfWriter))) 0) = [0]) \<and>
   bidirectional selfWriter \<and> depsAllocated selfWriter \<and>
   bidirectional (track 0 GET (VStr ''k'') selfWriter) \<and>
   bidirectional (snd (the (stop 0 0 selfWriter))) \<and>
   bidirectional (snd (the (run 1 0 selfWriter))) \<and>
   depsAllocated (snd (the (run 1 0 selfWriter))) \<and>
   bidirectional (cleanup 0 (snd (the (run 1 0 selfWriter)))) \<and>
   bidirectional (snd (the (trigger 1 0 SET (VStr ''k'') (snd (the (run 1 0 selfWriter))))))"
proof -
  let ?s1 = "snd (the (run 1 0 selfWriter))"
  have e: "run 1 0 selfWriter \<noteq> None \<and> stop 0 0 selfWriter \<noteq> None \<and>
    trigger 1 0 SET (VStr ''k'') (snd (the (run 1 0 selfWriter))) \<noteq> None \<and>
    depSets (snd (the (run 1 0 selfWriter))) 0 = [0] \<and>
    deps (effectObjs (snd (the (run 1 0 selfWriter))) 0) = [0]"
    by code_simp
  then have r: "run 1 0 selfWriter = Some (fst (the (run 1 0 selfWriter)), ?s1)"
    and st: "stop 0 0 selfWriter =
      Some (fst (the (stop 0 0 selfWriter)), snd (the (stop 0 0 selfWriter)))"
    and tr: "trigger 1 0 SET (VStr ''k'') ?s1 =
      Some (fst (the (trigger 1 0 SET (VStr ''k'') ?s1)),
            snd (the (trigger 1 0 SET (VStr ''k'') ?s1)))"
    by auto
  have g: "bidirectional selfWriter" "depsAllocated selfWriter"
    using graph_inv_selfWriter by (simp_all add: graph_inv_def)
  note p0 = dependency_bookkeeping_preserved [OF g, where e = 0 and target = 0 and ty = GET
      and key = "VStr ''k''" and ty' = SET]
  from p0 r st
  have 1: "bidirectional ?s1" "depsAllocated ?s1"
    and 2: "bidirectional (track 0 GET (VStr ''k'') selfWriter)"
    and 3: "bidirectional (snd (the (stop 0 0 selfWriter)))"
    by blast+
  note p1 = dependency_bookkeeping_preserved [OF 1, where e = 0 and target = 0 and ty = GET
      and key = "VStr ''k''" and ty' = SET]
  from p1 tr
  have 4: "bidirectional (cleanup 0 ?s1)"
    and 5: "bidirectional (snd (the (trigger 1 0 SET (VStr ''k'') ?s1)))"
    by blast+
  from e g 1 2 3 4 5 show ?thesis by blast
qed

end
